theory Spec2Isabelle
  imports Main "HOL-Library.Extended_Nat"
begin

section \<open>JavaScript strings\<close>

text \<open>
  A JavaScript string is modelled as a \<^typ>\<open>string\<close> whose characters stand for the
  code units U+0000 to U+00FF. The string methods used by the viewer are written out
  below on that range.
\<close>

definition toLowerCase_char :: "char \<Rightarrow> char" where
  "toLowerCase_char c =
     (let n = (of_char c :: nat)
      in if (65 \<le> n \<and> n \<le> 90) \<or> (192 \<le> n \<and> n \<le> 222 \<and> n \<noteq> 215)
         then char_of (n + 32) else c)"

definition toLowerCase :: "string \<Rightarrow> string" where
  "toLowerCase s = map toLowerCase_char s"

text \<open>\<^verbatim>\<open>s.startsWith(p)\<close>, \<^verbatim>\<open>s.endsWith(p)\<close> and \<^verbatim>\<open>s.includes(p)\<close>.\<close>

definition startsWith :: "string \<Rightarrow> string \<Rightarrow> bool" where
  "startsWith s p = (take (length p) s = p)"

definition endsWith :: "string \<Rightarrow> string \<Rightarrow> bool" where
  "endsWith s p = (length p \<le> length s \<and> drop (length s - length p) s = p)"

fun includes_str :: "string \<Rightarrow> string \<Rightarrow> bool" where
  "includes_str [] p = (p = [])"
| "includes_str (c # s) p = (startsWith (c # s) p \<or> includes_str s p)"

text \<open>The white space that \<^verbatim>\<open>trim()\<close> and the regular expression class \<^verbatim>\<open>\s\<close> remove:
  tab, line feed, vertical tab, form feed, carriage return, space and no-break space.\<close>

definition is_space :: "char \<Rightarrow> bool" where
  "is_space c = (of_char c \<in> {9, 10, 11, 12, 13, 32, 160 :: nat})"

definition trim :: "string \<Rightarrow> string" where
  "trim s = rev (dropWhile is_space (rev (dropWhile is_space s)))"

text \<open>The class \<^verbatim>\<open>\d\<close>.\<close>

definition is_digit :: "char \<Rightarrow> bool" where
  "is_digit c = (48 \<le> (of_char c :: nat) \<and> (of_char c :: nat) \<le> 57)"

text \<open>\<^verbatim>\<open>s.split(c)\<close> for a one-character separator: the empty string splits into one
  empty piece.\<close>

fun split_on :: "char \<Rightarrow> string \<Rightarrow> string list" where
  "split_on c [] = [[]]"
| "split_on c (x # xs) =
     (if x = c then [] # split_on c xs
      else (case split_on c xs of
              [] \<Rightarrow> [[x]]
            | p # ps \<Rightarrow> (x # p) # ps))"

text \<open>
  \<^verbatim>\<open>parseInt(s, 10)\<close> on a string of digits only. The result is a JavaScript number, a
  double: \<^verbatim>\<open>NaN\<close> (here \<^const>\<open>None\<close>) for the empty string, otherwise the double nearest to
  the decimal value of the digits, with ties going to the even significand of 53 bits
  and \<^verbatim>\<open>Infinity\<close> (here \<open>\<infinity>\<close>) from \<open>2 ^ 1024\<close> on. Values below \<open>2 ^ 53\<close> are
  exact. (For more than 20 digits the language lets an engine zero the digits after
  the 20th before rounding; the model rounds the full value, as the common engines do.)
\<close>

definition digit_value :: "char \<Rightarrow> nat" where
  "digit_value c = of_char c - 48"

fun bit_length :: "nat \<Rightarrow> nat" where
  "bit_length n = (if n = 0 then 0 else Suc (bit_length (n div 2)))"

declare bit_length.simps [simp del]

definition to_double :: "nat \<Rightarrow> enat" where
  "to_double n =
     (if n < 2 ^ 53 then of_nat n
      else
        (let e = bit_length n - 53;
             q = n div 2 ^ e;
             r = n mod 2 ^ e;
             q' = (if 2 ^ e < 2 * r \<or> (2 * r = 2 ^ e \<and> odd q) then q + 1 else q)
         in if 2 ^ 1024 \<le> q' * 2 ^ e then \<infinity> else of_nat (q' * 2 ^ e)))"

definition parseInt :: "string \<Rightarrow> enat option" where
  "parseInt s = (if s = [] then None
                 else Some (to_double (foldl (\<lambda>n c. 10 * n + digit_value c) 0 s)))"

section \<open>The parsed document\<close>

text \<open>
  \<^verbatim>\<open>parseRosettaNetHtml\<close> deletes every U+FFFD from its text, hands the rest to the
  browser's \<^verbatim>\<open>DOMParser\<close>, which returns a document for any text, and reads the result
  only through \<^verbatim>\<open>querySelectorAll('table')\<close>, \<^verbatim>\<open>querySelectorAll('tr')\<close>,
  \<^verbatim>\<open>querySelectorAll('td')\<close> and \<^verbatim>\<open>textContent\<close>. The model starts from that view: a
  document is the list of its tables in document order, a table the list of its rows,
  and a row carries its own text and the texts of its cells.
\<close>

record tr =
  textContent :: string
  tds :: "string list"

type_synonym table = "tr list"

type_synonym document = "table list"

section \<open>Definition dictionary\<close>

text \<open>
  \<^verbatim>\<open>definitions\<close> is a plain object literal. Its own properties are a map from names
  to texts; a read of a key that is not an own property still finds the members that
  every object inherits from \<^verbatim>\<open>Object.prototype\<close>, and an assignment to \<^verbatim>\<open>__proto__\<close> with
  a string does not create a property.
\<close>

type_synonym definitions = "string \<rightharpoonup> string"

datatype jsvalue = Str string | Inherited string

definition object_prototype_keys :: "string list" where
  "object_prototype_keys =
     [''constructor'', ''hasOwnProperty'', ''isPrototypeOf'', ''propertyIsEnumerable'',
      ''toLocaleString'', ''toString'', ''valueOf'', ''__proto__'',
      ''__defineGetter__'', ''__defineSetter__'', ''__lookupGetter__'',
      ''__lookupSetter__'']"

definition def_set :: "definitions \<Rightarrow> string \<Rightarrow> string \<Rightarrow> definitions" where
  "def_set defs k v = (if k = ''__proto__'' then defs else defs(k \<mapsto> v))"

definition def_get :: "definitions \<Rightarrow> string \<Rightarrow> jsvalue option" where
  "def_get defs k =
     (case defs k of
        Some v \<Rightarrow> Some (Str v)
      | None \<Rightarrow> if k \<in> set object_prototype_keys then Some (Inherited k) else None)"

text \<open>The truth value of \<^verbatim>\<open>definitions[k]\<close> in a condition: \<^verbatim>\<open>undefined\<close> and the empty
  string are false.\<close>

fun truthy :: "jsvalue option \<Rightarrow> bool" where
  "truthy None = False"
| "truthy (Some (Str s)) = (s \<noteq> [])"
| "truthy (Some (Inherited k)) = True"

text \<open>The test \<^verbatim>\<open>/^unformatted\s*text\.?$/i\<close> on a trimmed definition.\<close>

definition is_unformatted_text :: "string \<Rightarrow> bool" where
  "is_unformatted_text d =
     (let l = toLowerCase d
      in startsWith l ''unformatted'' \<and>
         (let r = dropWhile is_space (drop 11 l)
          in r = ''text'' \<or> r = ''text.''))"

definition isDefTable :: "table \<Rightarrow> bool" where
  "isDefTable rows =
     list_ex (\<lambda>r. let text = toLowerCase (textContent r)
                  in includes_str text ''name'' \<and> includes_str text ''definition'') rows"

definition define_row :: "definitions \<Rightarrow> tr \<Rightarrow> definitions" where
  "define_row defs r =
     (if 2 \<le> length (tds r) then
        (let name = trim (tds r ! 0);
             def0 = trim (tds r ! 1);
             def = (if is_unformatted_text def0 then [] else def0)
         in if name \<noteq> [] \<and> toLowerCase name \<noteq> ''name'' then def_set defs name def
            else defs)
      else defs)"

definition extract_definitions :: "document \<Rightarrow> definitions" where
  "extract_definitions tables =
     foldl (\<lambda>defs table. if isDefTable table then foldl define_row defs table else defs)
       Map.empty tables"

section \<open>Tree builder\<close>

text \<open>
  One node per emitted row. The parser pushes the array
  \<^verbatim>\<open>[id, parentId, fieldNo, level, name, description]\<close> and \<^verbatim>\<open>handleDataLoaded\<close> turns it,
  position by position, into the object the rest of the viewer reads; the model emits
  the object at once. Ids are the numbers that \<^const>\<open>parseInt\<close> returns.
\<close>

record node =
  node_id :: enat
  parentId :: enat
  fieldNo :: string
  level :: nat
  name :: string
  description :: jsvalue

datatype parse_error = StructureNotFoundError

text \<open>Table selection: the score of a table is the number of rows whose text contains
  \<^verbatim>\<open>|--\<close>; only tables of more than five rows compete, and a later table replaces the
  chosen one only with a strictly higher score.\<close>

definition tree_score :: "table \<Rightarrow> nat" where
  "tree_score rows = length (filter (\<lambda>r. includes_str (textContent r) ''|--'') rows)"

definition select_step :: "table option \<times> nat \<Rightarrow> table \<Rightarrow> table option \<times> nat" where
  "select_step acc t =
     (case acc of (mainTable, maxTreeScore) \<Rightarrow>
        if 5 < length t \<and> maxTreeScore < tree_score t then (Some t, tree_score t)
        else (mainTable, maxTreeScore))"

text \<open>The fallback \<^verbatim>\<open>tables.sort((a, b) => rows(b) - rows(a))[0]\<close>: a stable sort by
  falling row count, then the first element, \<^verbatim>\<open>undefined\<close> for no table.\<close>

definition largest_table :: "document \<Rightarrow> table option" where
  "largest_table tables =
     (case sort_key (\<lambda>t. - int (length t)) tables of
        [] \<Rightarrow> None
      | t # _ \<Rightarrow> Some t)"

definition select_main_table :: "document \<Rightarrow> table option" where
  "select_main_table tables =
     (case fst (foldl select_step (None, 0) tables) of
        Some t \<Rightarrow> Some t
      | None \<Rightarrow> largest_table tables)"

text \<open>Description lookup: the full name, then \<^verbatim>\<open>parts[0]\<close>, then \<^verbatim>\<open>parts[1]\<close> of the name
  split at every dot; each test is on the truth value of the entry.\<close>

definition lookup_description :: "definitions \<Rightarrow> string \<Rightarrow> jsvalue" where
  "lookup_description defs cleanName =
     (let parts = split_on (CHR ''.'') cleanName
      in if truthy (def_get defs cleanName) then the (def_get defs cleanName)
         else if 0 < length parts \<and> truthy (def_get defs (parts ! 0))
           then the (def_get defs (parts ! 0))
         else if 1 < length parts \<and> truthy (def_get defs (parts ! 1))
           then the (def_get defs (parts ! 1))
         else Str [])"

text \<open>The cleaning \<^verbatim>\<open>replace(/[|\-]/g, '').trim()\<close> and the count of pipes.\<close>

definition clean_name :: "string \<Rightarrow> string" where
  "clean_name s = trim (filter (\<lambda>c. c \<noteq> CHR ''|'' \<and> c \<noteq> CHR ''-'') s)"

definition pipe_count :: "string \<Rightarrow> nat" where
  "pipe_count s = length (filter (\<lambda>c. c = CHR ''|'') s)"

definition nbsp_to_space :: "string \<Rightarrow> string" where
  "nbsp_to_space s = map (\<lambda>c. if c = CHR 0xA0 then CHR '' '' else c) s"

text \<open>The body of the row loop. The state is \<^verbatim>\<open>parentIds\<close>, keyed by level with the
  entry \<open>-1 \<mapsto> 0\<close> from the start, and the rows pushed so far.\<close>

definition process_row ::
  "definitions \<Rightarrow> (int \<rightharpoonup> enat) \<times> node list \<Rightarrow> tr \<Rightarrow> (int \<rightharpoonup> enat) \<times> node list" where
  "process_row defs st r =
     (case st of (parentIds, rawData) \<Rightarrow>
        if length (tds r) < 3 then (parentIds, rawData)
        else
          (let fieldNoStr = trim (tds r ! 0);
               cleanIdStr = filter is_digit fieldNoStr
           in case parseInt cleanIdStr of
                None \<Rightarrow> (parentIds, rawData)
              | Some i \<Rightarrow>
                  (let rawNameText = nbsp_to_space (tds r ! 2);
                       lvl = pipe_count rawNameText;
                       cleanName0 = clean_name rawNameText;
                       cleanName = (if cleanName0 = [] \<and> 3 < length (tds r)
                                    then clean_name (tds r ! 3) else cleanName0);
                       pid = (case parentIds (int lvl - 1) of Some p \<Rightarrow> p | None \<Rightarrow> 0)
                   in (parentIds(int lvl \<mapsto> i),
                       rawData @ [\<lparr>node_id = i, parentId = pid, fieldNo = fieldNoStr,
                                    level = lvl, name = cleanName,
                                    description = lookup_description defs cleanName\<rparr>]))))"

definition build_rows :: "definitions \<Rightarrow> table \<Rightarrow> node list" where
  "build_rows defs rows = snd (foldl (process_row defs) ([-1 \<mapsto> 0], []) rows)"

definition parseRosettaNetHtml :: "document \<Rightarrow> parse_error + node list" where
  "parseRosettaNetHtml tables =
     (case select_main_table tables of
        None \<Rightarrow> Inl StructureNotFoundError
      | Some mainTable \<Rightarrow> Inr (build_rows (extract_definitions tables) mainTable))"

section \<open>Viewer state\<close>

datatype search_mode = Keyword | Path

record view_state =
  data :: "node list"
  expandedIds :: "enat set"
  highlightedIds :: "enat set"
  searchMode :: search_mode

text \<open>The state at start, and \<^verbatim>\<open>handleDataLoaded\<close>, which installs a parsed node list
  and collapses the view.\<close>

definition initial_state :: view_state where
  "initial_state = \<lparr>data = [], expandedIds = {}, highlightedIds = {}, searchMode = Keyword\<rparr>"

definition handleDataLoaded :: "view_state \<Rightarrow> node list \<Rightarrow> view_state" where
  "handleDataLoaded st parsedData = st\<lparr>data := parsedData, expandedIds := {}\<rparr>"

subsection \<open>Expansion\<close>

definition toggleNode :: "view_state \<Rightarrow> enat \<Rightarrow> view_state" where
  "toggleNode st i =
     (if i \<in> expandedIds st then st\<lparr>expandedIds := expandedIds st - {i}\<rparr>
      else st\<lparr>expandedIds := insert i (expandedIds st)\<rparr>)"

definition allParentIds :: "node list \<Rightarrow> enat set" where
  "allParentIds ns =
     set (map node_id
       (filter (\<lambda>item. list_ex (\<lambda>child. parentId child = node_id item) ns) ns))"

definition expandAll :: "view_state \<Rightarrow> view_state" where
  "expandAll st = st\<lparr>expandedIds := allParentIds (data st)\<rparr>"

definition collapseAll :: "view_state \<Rightarrow> view_state" where
  "collapseAll st = st\<lparr>expandedIds := {}\<rparr>"

subsection \<open>Visibility projector\<close>

text \<open>\<^verbatim>\<open>new Map(data.map(d => [d.id, d]))\<close>: of two nodes with one id the later one
  stays.\<close>

definition idMap :: "node list \<Rightarrow> (enat \<rightharpoonup> node)" where
  "idMap ns = map_of (rev (map (\<lambda>d. (node_id d, d)) ns))"

text \<open>The walk up the parent chain has no bound of its own, so its result is an
  option: \<^const>\<open>None\<close> is a walk that never ends.\<close>

partial_function (option) ancestors_expanded ::
  "(enat \<rightharpoonup> node) \<Rightarrow> enat set \<Rightarrow> enat \<Rightarrow> bool option" where
  "ancestors_expanded m expanded currentParentId =
     (if currentParentId = 0 then Some True
      else if currentParentId \<notin> expanded then Some False
      else (case m currentParentId of
              None \<Rightarrow> Some False
            | Some parent \<Rightarrow> ancestors_expanded m expanded (parentId parent)))"

definition is_visible :: "(enat \<rightharpoonup> node) \<Rightarrow> enat set \<Rightarrow> node \<Rightarrow> bool option" where
  "is_visible m expanded item =
     (if parentId item = 0 then Some True
      else ancestors_expanded m expanded (parentId item))"

text \<open>\<^verbatim>\<open>data.filter\<close> with a test that may not return.\<close>

fun filter_option :: "('a \<Rightarrow> bool option) \<Rightarrow> 'a list \<Rightarrow> 'a list option" where
  "filter_option p [] = Some []"
| "filter_option p (x # xs) =
     (case p x of
        None \<Rightarrow> None
      | Some b \<Rightarrow>
          (case filter_option p xs of
             None \<Rightarrow> None
           | Some ys \<Rightarrow> Some (if b then x # ys else ys)))"

definition visibleItems :: "node list \<Rightarrow> enat set \<Rightarrow> node list option" where
  "visibleItems ns expanded =
     (if ns = [] then Some []
      else filter_option (is_visible (idMap ns) expanded) ns)"

subsection \<open>Path search\<close>

text \<open>\<^verbatim>\<open>path.replace(/^\/?Pip[^\/]+\//, '')\<close>: an optional leading slash, \<^verbatim>\<open>Pip\<close>, at least
  one character other than a slash, and the slash after them.\<close>

definition strip_pip_prefix :: "string \<Rightarrow> string" where
  "strip_pip_prefix path =
     (let t = (if startsWith path ''/'' then drop 1 path else path)
      in if startsWith t ''Pip'' then
           (let r = drop 3 t;
                a = takeWhile (\<lambda>c. c \<noteq> CHR ''/'') r;
                b = dropWhile (\<lambda>c. c \<noteq> CHR ''/'') r
            in if a \<noteq> [] \<and> b \<noteq> [] then drop 1 b else path)
         else path)"

text \<open>\<^verbatim>\<open>path.replace(/\[\d*\]/g, "")\<close>: matches are removed from left to right and the
  text after a match is scanned on.\<close>

function strip_indices :: "string \<Rightarrow> string" where
  "strip_indices [] = []"
| "strip_indices (c # cs) =
     (if c = CHR ''['' \<and> startsWith (dropWhile is_digit cs) '']''
      then strip_indices (drop 1 (dropWhile is_digit cs))
      else c # strip_indices cs)"
  by pat_completeness auto
termination
proof (relation "measure length")
  show "wf (measure length)" by simp
next
  fix c :: char and cs :: string
  have "length (drop 1 (dropWhile is_digit cs)) \<le> length cs"
    using length_dropWhile_le[of is_digit cs] by simp
  then show "(drop 1 (dropWhile is_digit cs), c # cs) \<in> measure length" by simp
next
  fix c :: char and cs :: string
  show "(cs, c # cs) \<in> measure length" by simp
qed

definition path_segments :: "string \<Rightarrow> string list" where
  "path_segments trimmedTerm =
     (let path0 = strip_indices (strip_pip_prefix trimmedTerm);
          path1 = (if startsWith path0 ''/'' then drop 1 path0 else path0);
          path2 = (if endsWith path1 ''/'' then take (length path1 - 1) path1 else path1)
      in filter (\<lambda>s. s \<noteq> []) (split_on (CHR ''/'') path2))"

text \<open>The test used by all three strategies: equal without regard to case, or contained
  as written.\<close>

definition name_matches :: "string \<Rightarrow> node \<Rightarrow> bool" where
  "name_matches s c = (toLowerCase (name c) = toLowerCase s \<or> includes_str (name c) s)"

definition is_choice :: "node \<Rightarrow> bool" where
  "is_choice c = (name c = ''Choice'' \<or> name c = ''(Choice)'')"

definition children_of :: "node list \<Rightarrow> enat \<Rightarrow> node list" where
  "children_of ns p = filter (\<lambda>d. parentId d = p) ns"

text \<open>The traversal loop over the segments still to resolve, with the loop variables
  \<^verbatim>\<open>currentParentId\<close>, \<^verbatim>\<open>matchedNodeId\<close> (\<^const>\<open>None\<close> for \<^verbatim>\<open>null\<close>) and \<^verbatim>\<open>newExpanded\<close>.
  It returns the last two.\<close>

fun resolve ::
  "node list \<Rightarrow> enat \<Rightarrow> enat option \<Rightarrow> enat set \<Rightarrow> string list \<Rightarrow> enat option \<times> enat set" where
  "resolve ns currentParentId matchedNodeId newExpanded [] = (matchedNodeId, newExpanded)"
| "resolve ns currentParentId matchedNodeId newExpanded (segment # rest) =
     (let children = children_of ns currentParentId;
          compound =
            (case rest of
               [] \<Rightarrow> None
             | nextSegment # _ \<Rightarrow>
                 if nextSegment = [] then None
                 else find (name_matches (segment @ ''.'' @ nextSegment)) children)
      in case compound of
           Some match \<Rightarrow>
             resolve ns (node_id match) (Some (node_id match))
               (insert (node_id match) newExpanded) (drop 1 rest)
         | None \<Rightarrow>
             (case find (name_matches segment) children of
                Some match \<Rightarrow>
                  resolve ns (node_id match) (Some (node_id match))
                    (insert (node_id match) newExpanded) rest
              | None \<Rightarrow>
                  (case find is_choice children of
                     None \<Rightarrow> (matchedNodeId, newExpanded)
                   | Some choiceNode \<Rightarrow>
                       (case find (name_matches segment) (children_of ns (node_id choiceNode)) of
                          None \<Rightarrow> (matchedNodeId, newExpanded)
                        | Some matchInChoice \<Rightarrow>
                            resolve ns (node_id matchInChoice) (Some (node_id matchInChoice))
                              (insert (node_id matchInChoice)
                                 (insert (node_id choiceNode) newExpanded))
                              rest))))"

text \<open>The end of the path branch: \<^verbatim>\<open>if (matchedNodeId)\<close> is false for \<^verbatim>\<open>null\<close> and for the
  number 0.\<close>

definition path_search :: "view_state \<Rightarrow> string \<Rightarrow> view_state" where
  "path_search st trimmedTerm =
     (case resolve (data st) 0 None {} (path_segments trimmedTerm) of
        (matchedNodeId, newExpanded) \<Rightarrow>
          (case matchedNodeId of
             None \<Rightarrow> st\<lparr>searchMode := Path, highlightedIds := {}\<rparr>
           | Some m \<Rightarrow>
               if m \<noteq> 0
               then st\<lparr>searchMode := Path, expandedIds := newExpanded, highlightedIds := {m}\<rparr>
               else st\<lparr>searchMode := Path, highlightedIds := {}\<rparr>))"

subsection \<open>Keyword search\<close>

definition keyword_matches :: "string \<Rightarrow> node \<Rightarrow> bool" where
  "keyword_matches lowerTerm item =
     (includes_str (toLowerCase (name item)) lowerTerm \<or> includes_str (fieldNo item) lowerTerm)"

text \<open>The loop that adds the ancestors of one match; \<^verbatim>\<open>data.find\<close> takes the first node
  with the id. Like the walk of the projector it has no bound of its own.\<close>

partial_function (option) add_ancestors :: "node list \<Rightarrow> enat \<Rightarrow> enat set \<Rightarrow> enat set option" where
  "add_ancestors ns currentParentId newExpanded =
     (if currentParentId = 0 then Some newExpanded
      else (case find (\<lambda>d. node_id d = currentParentId) ns of
              None \<Rightarrow> Some (insert currentParentId newExpanded)
            | Some parent \<Rightarrow>
                add_ancestors ns (parentId parent) (insert currentParentId newExpanded)))"

fun expand_matches :: "node list \<Rightarrow> node list \<Rightarrow> enat set \<Rightarrow> enat set option" where
  "expand_matches ns [] newExpanded = Some newExpanded"
| "expand_matches ns (match # matches) newExpanded =
     (case add_ancestors ns (parentId match) newExpanded of
        None \<Rightarrow> None
      | Some e \<Rightarrow> expand_matches ns matches e)"

definition keyword_search :: "view_state \<Rightarrow> string \<Rightarrow> view_state option" where
  "keyword_search st trimmedTerm =
     (let lowerTerm = toLowerCase trimmedTerm;
          matches = filter (keyword_matches lowerTerm) (data st);
          newHighlighted = set (map node_id matches)
      in case expand_matches (data st) matches (expandedIds st) of
           None \<Rightarrow> None
         | Some newExpanded \<Rightarrow>
             Some (st\<lparr>searchMode := Keyword, highlightedIds := newHighlighted,
                      expandedIds := newExpanded\<rparr>))"

subsection \<open>The search effect\<close>

definition is_path_query :: "string \<Rightarrow> bool" where
  "is_path_query trimmedTerm =
     (includes_str trimmedTerm ''/'' \<or> startsWith trimmedTerm ''Pip'')"

definition search_effect :: "view_state \<Rightarrow> string \<Rightarrow> view_state option" where
  "search_effect st searchTerm =
     (if data st = [] then Some st
      else if trim searchTerm = [] then Some (st\<lparr>highlightedIds := {}, searchMode := Keyword\<rparr>)
      else if is_path_query (trim searchTerm) then Some (path_search st (trim searchTerm))
      else keyword_search st (trim searchTerm))"

section \<open>Auxiliary notions for the properties\<close>

text \<open>Every parent id is 0 or the id of a node at a strictly smaller position.\<close>

definition parents_earlier :: "node list \<Rightarrow> bool" where
  "parents_earlier ns =
     (\<forall>i<length ns. parentId (ns ! i) = 0 \<or> (\<exists>j<i. node_id (ns ! j) = parentId (ns ! i)))"

text \<open>The invariant of the row loop: \<^verbatim>\<open>parentIds\<close> holds only 0 and ids of rows already
  pushed, and the rows pushed so far refer backwards.\<close>

definition tracking_ok :: "(int \<rightharpoonup> enat) \<times> node list \<Rightarrow> bool" where
  "tracking_ok st =
     ((\<forall>k p. fst st k = Some p \<longrightarrow> p = 0 \<or> (\<exists>j<length (snd st). node_id (snd st ! j) = p)) \<and>
      parents_earlier (snd st))"

subsection \<open>The trace of a path resolution\<close>

text \<open>The ids of the nodes that the traversal loop descends into, in the order in which
  the segments resolve: the same case analysis as \<^const>\<open>resolve\<close>, without its
  accumulators. The list is empty exactly when no segment resolves, and its last element
  is the last node resolved.\<close>

fun resolved_nodes :: "node list \<Rightarrow> enat \<Rightarrow> string list \<Rightarrow> enat list" where
  "resolved_nodes ns currentParentId [] = []"
| "resolved_nodes ns currentParentId (segment # rest) =
     (let children = children_of ns currentParentId;
          compound =
            (case rest of
               [] \<Rightarrow> None
             | nextSegment # _ \<Rightarrow>
                 if nextSegment = [] then None
                 else find (name_matches (segment @ ''.'' @ nextSegment)) children)
      in case compound of
           Some match \<Rightarrow> node_id match # resolved_nodes ns (node_id match) (drop 1 rest)
         | None \<Rightarrow>
             (case find (name_matches segment) children of
                Some match \<Rightarrow> node_id match # resolved_nodes ns (node_id match) rest
              | None \<Rightarrow>
                  (case find is_choice children of
                     None \<Rightarrow> []
                   | Some choiceNode \<Rightarrow>
                       (case find (name_matches segment) (children_of ns (node_id choiceNode)) of
                          None \<Rightarrow> []
                        | Some matchInChoice \<Rightarrow>
                            node_id matchInChoice #
                              resolved_nodes ns (node_id matchInChoice) rest))))"

definition last_resolved :: "enat option \<Rightarrow> enat list \<Rightarrow> enat option" where
  "last_resolved m trace = (if trace = [] then m else Some (last trace))"

subsection \<open>The order of the description lookup\<close>

text \<open>The keys of the lookup in the words of the amended claim C6: the full name, the
  part of the name before its first dot, and, when the name has a dot, the part between
  its first and its second dot. The function \<open>first_hit\<close> tries a list of keys in order and
  returns the first entry whose value is true in a condition, the empty string when
  there is none.\<close>

definition before_first_dot :: "string \<Rightarrow> string" where
  "before_first_dot s = takeWhile (\<lambda>c. c \<noteq> CHR ''.'') s"

definition between_first_dots :: "string \<Rightarrow> string" where
  "between_first_dots s =
     takeWhile (\<lambda>c. c \<noteq> CHR ''.'') (drop 1 (dropWhile (\<lambda>c. c \<noteq> CHR ''.'') s))"

definition lookup_keys :: "string \<Rightarrow> string list" where
  "lookup_keys nm =
     nm # before_first_dot nm # (if CHR ''.'' \<in> set nm then [between_first_dots nm] else [])"

fun first_hit :: "definitions \<Rightarrow> string list \<Rightarrow> jsvalue" where
  "first_hit defs [] = Str []"
| "first_hit defs (k # ks) =
     (case def_get defs k of
        None \<Rightarrow> first_hit defs ks
      | Some v \<Rightarrow> if truthy (Some v) then v else first_hit defs ks)"

subsection \<open>Example documents\<close>

text \<open>A row whose text is the text of its cells.\<close>

definition row_of_cells :: "string list \<Rightarrow> tr" where
  "row_of_cells cs = \<lparr>textContent = concat cs, tds = cs\<rparr>"

definition plain_node :: "enat \<Rightarrow> enat \<Rightarrow> string \<Rightarrow> nat \<Rightarrow> string \<Rightarrow> node" where
  "plain_node i p f l n =
     \<lparr>node_id = i, parentId = p, fieldNo = f, level = l, name = n, description = Str []\<rparr>"

text \<open>The round-trip document: one table, the field number in cell 0 and the label in
  cell 2 of each row.\<close>

definition round_trip_doc :: document where
  "round_trip_doc =
     [[row_of_cells [''1'', ''0'', ''Pip3A4.Root''],
       row_of_cells [''2'', ''0'', ''|--ServiceHeader''],
       row_of_cells [''3'', ''0'', ''|--|--ProcessControl'']]]"

definition round_trip_nodes :: "node list" where
  "round_trip_nodes =
     [plain_node 1 0 ''1'' 0 ''Pip3A4.Root'',
      plain_node 2 1 ''2'' 1 ''ServiceHeader'',
      plain_node 3 2 ''3'' 2 ''ProcessControl'']"

text \<open>Two rows with one field number, the second a level below the first.\<close>

definition duplicate_id_doc :: document where
  "duplicate_id_doc =
     [[row_of_cells [''5'', ''1'', ''A''], row_of_cells [''5'', ''1'', ''|--B'']]]"

definition duplicate_id_nodes :: "node list" where
  "duplicate_id_nodes = [plain_node 5 0 ''5'' 0 ''A'', plain_node 5 5 ''5'' 1 ''B'']"

text \<open>The round-trip tree without its root row and with \<^verbatim>\<open>ProcessControl\<close> wrapped in a
  \<^verbatim>\<open>Choice\<close> node.\<close>

definition choice_nodes :: "node list" where
  "choice_nodes =
     [plain_node 1 0 ''1'' 0 ''ServiceHeader'',
      plain_node 2 1 ''2'' 1 ''Choice'',
      plain_node 3 2 ''3'' 2 ''ProcessControl'']"

text \<open>A node with two \<^verbatim>\<open>Choice\<close> children, the second of which holds \<^verbatim>\<open>B\<close>.\<close>

definition two_choice_nodes :: "node list" where
  "two_choice_nodes =
     [plain_node 1 0 ''1'' 0 ''A'',
      plain_node 2 1 ''2'' 1 ''Choice'',
      plain_node 3 2 ''3'' 2 ''X'',
      plain_node 4 1 ''4'' 1 ''Choice'',
      plain_node 5 4 ''5'' 2 ''B'']"

text \<open>Documents with a field number that strips to the digits \<^verbatim>\<open>0\<close>.\<close>

definition zero_id_doc :: document where
  "zero_id_doc = [[row_of_cells [''1'', ''1'', ''A''], row_of_cells [''0'', ''1'', ''|--B'']]]"

definition zero_id_nodes :: "node list" where
  "zero_id_nodes = [plain_node 1 0 ''1'' 0 ''A'', plain_node 0 1 ''0'' 1 ''B'']"

definition zero_root_doc :: document where
  "zero_root_doc = [[row_of_cells [''(0)'', ''1'', ''A'']]]"

definition zero_root_nodes :: "node list" where
  "zero_root_nodes = [plain_node 0 0 ''(0)'' 0 ''A'']"

text \<open>The two-\<^verbatim>\<open>Choice\<close> tree after the user has expanded node 4.\<close>

definition toggled_two_choice :: view_state where
  "toggled_two_choice = toggleNode (handleDataLoaded initial_state two_choice_nodes) 4"

text \<open>A row whose field-number token carries a capital letter.\<close>

definition upper_field_doc :: document where
  "upper_field_doc = [[row_of_cells [''A1'', ''1'', ''x'']]]"

definition upper_field_nodes :: "node list" where
  "upper_field_nodes = [plain_node 1 0 ''A1'' 0 ''x'']"

text \<open>A row whose label cell holds only the indentation marker, with the name in the
  next cell.\<close>

definition shifted_name_doc :: document where
  "shifted_name_doc = [[row_of_cells [''1'', ''1'', ''|--'', ''|--|--Foo'']]]"

text \<open>Two field numbers at and just above \<open>2 ^ 53\<close>: the second is not a double and
  rounds to the first.\<close>

definition rounded_id_doc :: document where
  "rounded_id_doc =
     [[row_of_cells [''9007199254740992'', ''1'', ''A''],
       row_of_cells [''9007199254740993'', ''1'', ''|--B'']]]"

definition rounded_id_nodes :: "node list" where
  "rounded_id_nodes =
     [plain_node 9007199254740992 0 ''9007199254740992'' 0 ''A'',
      plain_node 9007199254740992 9007199254740992 ''9007199254740993'' 1 ''B'']"

text \<open>A catalog table followed by a definition table, with an entry for the second
  component of the first name, and the same with an entry for the remainder after the
  first dot.\<close>

definition described_doc :: document where
  "described_doc =
     [[row_of_cells [''1'', ''1'', ''a.b.c''],
       row_of_cells [''2'', ''1'', ''|--b''],
       row_of_cells [''3'', ''1'', ''|--|--q'']],
      [row_of_cells [''Name'', ''Definition''],
       row_of_cells [''b'', ''Y'']]]"

definition described_nodes :: "node list" where
  "described_nodes =
     [\<lparr>node_id = 1, parentId = 0, fieldNo = ''1'', level = 0, name = ''a.b.c'',
        description = Str ''Y''\<rparr>,
      \<lparr>node_id = 2, parentId = 1, fieldNo = ''2'', level = 1, name = ''b'',
        description = Str ''Y''\<rparr>,
      \<lparr>node_id = 3, parentId = 2, fieldNo = ''3'', level = 2, name = ''q'',
        description = Str []\<rparr>]"

definition remainder_key_doc :: document where
  "remainder_key_doc =
     [[row_of_cells [''1'', ''1'', ''a.b.c''],
       row_of_cells [''2'', ''1'', ''|--x''],
       row_of_cells [''3'', ''1'', ''|--|--y'']],
      [row_of_cells [''Name'', ''Definition''],
       row_of_cells [''b.c'', ''X'']]]"

section \<open>Evaluation\<close>

lemma char_eq_char_of_iff: "(c = char_of (n::nat)) = (take_bit 8 n = of_char c)"
  using char_of_eq_iff[of n c] by auto

lemmas js_eval =
  toLowerCase_def toLowerCase_char_def startsWith_def endsWith_def is_space_def is_digit_def
  char_of_eq_iff char_eq_char_of_iff trim_def parseInt_def digit_value_def to_double_def

lemmas parse_eval =
  parseRosettaNetHtml_def select_main_table_def select_step_def tree_score_def
  largest_table_def extract_definitions_def isDefTable_def build_rows_def process_row_def
  define_row_def is_unformatted_text_def clean_name_def pipe_count_def nbsp_to_space_def lookup_description_def
  def_get_def def_set_def object_prototype_keys_def row_of_cells_def plain_node_def Let_def

lemmas search_eval =
  search_effect_def is_path_query_def path_search_def path_segments_def strip_pip_prefix_def
  children_of_def name_matches_def is_choice_def keyword_search_def keyword_matches_def
  plain_node_def Let_def

lemma parse_round_trip_doc: "parseRosettaNetHtml round_trip_doc = Inr round_trip_nodes"
  by (simp add: round_trip_doc_def round_trip_nodes_def parse_eval js_eval)

lemma parseInt_rounds:
  "parseInt ''9007199254740993'' = Some 9007199254740992"
  by (simp add: js_eval bit_length.simps Let_def)

lemma parse_rounded_id_doc: "parseRosettaNetHtml rounded_id_doc = Inr rounded_id_nodes"
  by (simp add: rounded_id_doc_def rounded_id_nodes_def parse_eval js_eval bit_length.simps)

lemma extract_described_doc: "extract_definitions described_doc = [''b'' \<mapsto> ''Y'']"
  by (simp add: described_doc_def parse_eval js_eval)

lemma parse_described_doc: "parseRosettaNetHtml described_doc = Inr described_nodes"
  by (simp add: described_doc_def described_nodes_def parse_eval js_eval)

lemma extract_remainder_key_doc: "extract_definitions remainder_key_doc = [''b.c'' \<mapsto> ''X'']"
  by (simp add: remainder_key_doc_def parse_eval js_eval)

lemma parse_remainder_key_doc:
  "parseRosettaNetHtml remainder_key_doc =
     Inr [plain_node 1 0 ''1'' 0 ''a.b.c'', plain_node 2 1 ''2'' 1 ''x'',
          plain_node 3 2 ''3'' 2 ''y'']"
  by (simp add: remainder_key_doc_def parse_eval js_eval)

section \<open>The tree builder refers backwards\<close>

lemma parents_earlierD:
  "parents_earlier ns \<Longrightarrow> i < length ns \<Longrightarrow>
   parentId (ns ! i) = 0 \<or> (\<exists>j<i. node_id (ns ! j) = parentId (ns ! i))"
  by (simp add: parents_earlier_def)

lemma process_row_skip:
  assumes "length (tds r) < 3 \<or> parseInt (filter is_digit (trim (tds r ! 0))) = None"
  shows "process_row defs (parentIds, rawData) r = (parentIds, rawData)"
  using assms by (auto simp: process_row_def Let_def)

lemma process_row_emit:
  assumes "parseInt (filter is_digit (trim (tds r ! 0))) = Some i" "\<not> length (tds r) < 3"
  shows "\<exists>n. process_row defs (parentIds, rawData) r =
     (parentIds(int (pipe_count (nbsp_to_space (tds r ! 2))) \<mapsto> i), rawData @ [n]) \<and> node_id n = i \<and>
     parentId n = (case parentIds (int (pipe_count (nbsp_to_space (tds r ! 2))) - 1) of Some p \<Rightarrow> p | None \<Rightarrow> 0)"
  using assms by (simp add: process_row_def Let_def)


lemma parents_earlier_snoc:
  assumes "parents_earlier ns"
    and "parentId n = 0 \<or> (\<exists>j<length ns. node_id (ns ! j) = parentId n)"
  shows "parents_earlier (ns @ [n])"
  unfolding parents_earlier_def
proof (intro allI impI)
  fix i assume i: "i < length (ns @ [n])"
  show "parentId ((ns @ [n]) ! i) = 0 \<or> (\<exists>j<i. node_id ((ns @ [n]) ! j) = parentId ((ns @ [n]) ! i))"
  proof (cases "i < length ns")
    case True
    with assms(1) have "parentId (ns ! i) = 0 \<or> (\<exists>j<i. node_id (ns ! j) = parentId (ns ! i))"
      by (simp add: parents_earlier_def)
    then show ?thesis
    proof
      assume "parentId (ns ! i) = 0"
      with True show ?thesis by (simp add: nth_append)
    next
      assume "\<exists>j<i. node_id (ns ! j) = parentId (ns ! i)"
      then obtain j where j: "j < i" "node_id (ns ! j) = parentId (ns ! i)" by blast
      with True have "node_id ((ns @ [n]) ! j) = parentId ((ns @ [n]) ! i)"
        by (simp add: nth_append)
      with j(1) show ?thesis by blast
    qed
  next
    case False
    with i have "i = length ns" by simp
    from assms(2) show ?thesis
    proof
      assume "parentId n = 0"
      then show ?thesis by (simp add: \<open>i = length ns\<close>)
    next
      assume "\<exists>j<length ns. node_id (ns ! j) = parentId n"
      then obtain j where j: "j < length ns" "node_id (ns ! j) = parentId n" by blast
      then have "j < i" "node_id ((ns @ [n]) ! j) = parentId ((ns @ [n]) ! i)"
        by (simp_all add: nth_append \<open>i = length ns\<close>)
      then show ?thesis by blast
    qed
  qed
qed


lemma tracking_ok_emit:
  assumes ok: "tracking_ok (parentIds, rawData)"
    and n: "node_id n = i" "parentId n = (case parentIds k0 of Some p \<Rightarrow> p | None \<Rightarrow> 0)"
  shows "tracking_ok (parentIds(l \<mapsto> i), rawData @ [n])"
proof -
  from ok have tr: "parentIds k = Some p \<Longrightarrow> p = 0 \<or> (\<exists>j<length rawData. node_id (rawData ! j) = p)" for k p
    unfolding tracking_ok_def fst_conv snd_conv by blast
  from ok have pe: "parents_earlier rawData"
    unfolding tracking_ok_def snd_conv by blast
  have "parentId n = 0 \<or> (\<exists>j<length rawData. node_id (rawData ! j) = parentId n)"
  proof (cases "parentIds k0")
    case None
    then show ?thesis using n(2) by simp
  next
    case (Some p)
    then show ?thesis using n(2) tr[OF Some] by simp
  qed
  with pe have pe': "parents_earlier (rawData @ [n])"
    by (rule parents_earlier_snoc)
  have tr': "p = 0 \<or> (\<exists>j<length (rawData @ [n]). node_id ((rawData @ [n]) ! j) = p)"
    if "(parentIds(l \<mapsto> i)) k = Some p" for k p
  proof (cases "k = l")
    case True
    with that have "p = i" by simp
    then have "node_id ((rawData @ [n]) ! length rawData) = p" using n(1) by simp
    then show ?thesis by (intro disjI2 exI[of _ "length rawData"]) simp
  next
    case False
    with that have "parentIds k = Some p" by simp
    from tr[OF this] show ?thesis
    proof
      assume "p = 0" then show ?thesis by simp
    next
      assume "\<exists>j<length rawData. node_id (rawData ! j) = p"
      then obtain j where "j < length rawData" "node_id (rawData ! j) = p" by blast
      then show ?thesis by (intro disjI2 exI[of _ j]) (simp add: nth_append)
    qed
  qed
  show ?thesis
    unfolding tracking_ok_def fst_conv snd_conv using tr' pe' by blast
qed


lemma process_row_tracking:
  assumes "tracking_ok st"
  shows "tracking_ok (process_row defs st r)"
proof (cases st)
  case (Pair parentIds rawData)
  show ?thesis
  proof (cases "length (tds r) < 3 \<or> parseInt (filter is_digit (trim (tds r ! 0))) = None")
    case True
    then show ?thesis using assms unfolding Pair by (simp only: process_row_skip)
  next
    case False
    then obtain i where i: "parseInt (filter is_digit (trim (tds r ! 0))) = Some i"
      and len: "\<not> length (tds r) < 3"
      by blast
    from process_row_emit[OF i len, of defs parentIds rawData] obtain n where
      res: "process_row defs (parentIds, rawData) r =
        (parentIds(int (pipe_count (nbsp_to_space (tds r ! 2))) \<mapsto> i), rawData @ [n])"
      and n: "node_id n = i"
        "parentId n = (case parentIds (int (pipe_count (nbsp_to_space (tds r ! 2))) - 1) of
                         Some p \<Rightarrow> p | None \<Rightarrow> 0)"
      by blast
    from assms have "tracking_ok (parentIds, rawData)" unfolding Pair .
    from tracking_ok_emit[OF this n] show ?thesis unfolding Pair res .
  qed
qed

lemma foldl_process_row_tracking:
  "tracking_ok st \<Longrightarrow> tracking_ok (foldl (process_row defs) st rows)"
proof (induction rows arbitrary: st)
  case Nil
  then show ?case by simp
next
  case (Cons r rows)
  from Cons.prems have "tracking_ok (process_row defs st r)" by (rule process_row_tracking)
  from Cons.IH[OF this] show ?case by simp
qed

lemma build_rows_parents_earlier: "parents_earlier (build_rows defs rows)"
proof -
  have "tracking_ok ([-1 \<mapsto> 0], [])"
    by (simp add: tracking_ok_def parents_earlier_def)
  then have "tracking_ok (foldl (process_row defs) ([-1 \<mapsto> 0], []) rows)"
    by (rule foldl_process_row_tracking)
  then show ?thesis by (simp add: build_rows_def tracking_ok_def)
qed

lemma parse_parents_earlier:
  "parseRosettaNetHtml doc = Inr ns \<Longrightarrow> parents_earlier ns"
  by (auto simp: parseRosettaNetHtml_def build_rows_parents_earlier split: option.splits)

lemma largest_table_None: "largest_table tables = None \<longleftrightarrow> tables = []"
proof -
  have "length (sort_key (\<lambda>t. - int (length t)) tables) = length tables"
    by (rule length_sort)
  then have "sort_key (\<lambda>t. - int (length t)) tables = [] \<longleftrightarrow> tables = []"
    by (metis length_0_conv)
  then show ?thesis by (auto simp: largest_table_def split: list.splits)
qed

lemma select_main_table_None: "select_main_table tables = None \<longleftrightarrow> tables = []"
proof (cases "tables = []")
  case True
  then show ?thesis by (simp add: select_main_table_def largest_table_None)
next
  case False
  then have "largest_table tables \<noteq> None" by (simp add: largest_table_None)
  with False show ?thesis by (auto simp: select_main_table_def split: option.splits)
qed

lemma find_first:
  assumes "j < length xs" and "P (xs ! j)"
  shows "\<exists>i\<le>j. find P xs = Some (xs ! i) \<and> P (xs ! i)"
  using assms
proof (induction xs arbitrary: j)
  case Nil
  then show ?case by simp
next
  case (Cons x xs)
  show ?case
  proof (cases "P x")
    case True
    then have "find P (x # xs) = Some ((x # xs) ! 0) \<and> P ((x # xs) ! 0)" by simp
    then show ?thesis by blast
  next
    case False
    with Cons.prems obtain k where k: "j = Suc k" by (cases j) auto
    with Cons.prems have "k < length xs" "P (xs ! k)" by simp_all
    from Cons.IH[OF this] obtain i where i: "i \<le> k" "find P xs = Some (xs ! i)" "P (xs ! i)"
      by blast
    from i False have "find P (x # xs) = Some ((x # xs) ! Suc i) \<and> P ((x # xs) ! Suc i)"
      by simp
    moreover from i(1) k have "Suc i \<le> j" by simp
    ultimately show ?thesis by blast
  qed
qed

lemma add_ancestors_from_position:
  assumes pe: "parents_earlier ns" and "i < length ns"
  shows "\<exists>E'. add_ancestors ns (parentId (ns ! i)) E = Some E'"
  using assms(2)
proof (induction i arbitrary: E rule: less_induct)
  case (less i)
  show ?case
  proof (cases "parentId (ns ! i) = 0")
    case True
    then show ?thesis by (subst add_ancestors.simps) simp
  next
    case False
    from parents_earlierD[OF pe less.prems] False
    obtain j where j: "j < i" "node_id (ns ! j) = parentId (ns ! i)"
      by (elim disjE exE conjE) simp_all
    from j(1) less.prems have jl: "j < length ns" by (rule less_trans)
    from find_first[of j ns "\<lambda>d. node_id d = parentId (ns ! i)", OF jl j(2)]
    obtain k where k: "k \<le> j" "find (\<lambda>d. node_id d = parentId (ns ! i)) ns = Some (ns ! k)"
      by blast
    from k(1) j(1) have ki: "k < i" by simp
    from ki less.prems have kl: "k < length ns" by (rule less_trans)
    have "add_ancestors ns (parentId (ns ! i)) E =
        add_ancestors ns (parentId (ns ! k)) (insert (parentId (ns ! i)) E)"
      by (subst add_ancestors.simps) (simp add: False k(2))
    with less.IH[OF ki kl] show ?thesis by simp
  qed
qed

section \<open>When the parser throws\<close>

text \<open>
  Claim C4. The parse entry point returns for every document; it raises the
  structure-not-found error exactly when the document has no table at all, and for a
  document with at least one table it returns a node sequence, which may be empty.
\<close>

theorem parse_throws_iff_no_table:
  "(parseRosettaNetHtml doc = Inl StructureNotFoundError \<longleftrightarrow> doc = []) \<and>
   (doc \<noteq> [] \<longrightarrow> (\<exists>ns. parseRosettaNetHtml doc = Inr ns))"
proof (cases "select_main_table doc")
  case None
  then show ?thesis using select_main_table_None[of doc] by (simp add: parseRosettaNetHtml_def)
next
  case (Some t)
  then show ?thesis using select_main_table_None[of doc] by (simp add: parseRosettaNetHtml_def)
qed

theorem parse_throws_iff_no_table_witness:
  "parseRosettaNetHtml [] = Inl StructureNotFoundError \<and>
   [[]] \<noteq> ([] :: document) \<and> parseRosettaNetHtml [[]] = Inr [] \<and>
   parseRosettaNetHtml [[]] \<noteq> Inl StructureNotFoundError"
  using parse_throws_iff_no_table[of "[]"] parse_throws_iff_no_table[of "[[]]"]
  by (simp add: parse_eval)

section \<open>Visibility after expanding and collapsing everything\<close>

lemma parse_duplicate_id_doc: "parseRosettaNetHtml duplicate_id_doc = Inr duplicate_id_nodes"
  by (simp add: duplicate_id_doc_def duplicate_id_nodes_def parse_eval js_eval)

lemma ancestors_expanded_cycle:
  assumes "m c = Some p" and "parentId p = c" and "c \<in> E" and "c \<noteq> 0"
  shows "ancestors_expanded m E c = None"
proof -
  have "m' = m \<longrightarrow> E' = E \<longrightarrow> c' = c \<longrightarrow> False"
    if run: "ancestors_expanded m' E' c' = Some y" for m' E' c' y
  proof (rule ancestors_expanded.raw_induct
      [where P = "\<lambda>m' E' c' y. m' = m \<longrightarrow> E' = E \<longrightarrow> c' = c \<longrightarrow> False", OF _ run])
    fix f :: "(enat \<rightharpoonup> node) \<Rightarrow> enat set \<Rightarrow> enat \<Rightarrow> bool option" and m' E' c' y
    assume IH: "\<And>m' E' c' y. f m' E' c' = Some y \<Longrightarrow> m' = m \<longrightarrow> E' = E \<longrightarrow> c' = c \<longrightarrow> False"
      and body: "(if c' = 0 then Some True
           else if c' \<notin> E' then Some False
           else case m' c' of None \<Rightarrow> Some False
                | Some parent \<Rightarrow> f m' E' (parentId parent)) = Some y"
    show "m' = m \<longrightarrow> E' = E \<longrightarrow> c' = c \<longrightarrow> False"
    proof (intro impI)
      assume eq: "m' = m" "E' = E" "c' = c"
      with body assms have "f m E c = Some y" by simp
      from IH[OF this] show False by simp
    qed
  qed
  then have "ancestors_expanded m E c \<noteq> Some y" for y by blast
  then show ?thesis by (cases "ancestors_expanded m E c") auto
qed

lemma filter_option_None:
  "x \<in> set xs \<Longrightarrow> p x = None \<Longrightarrow> filter_option p xs = None"
  by (induction xs) (auto split: option.splits)

lemma duplicate_id_projection:
  "visibleItems duplicate_id_nodes (allParentIds duplicate_id_nodes) = None"
proof -
  let ?B = "plain_node 5 5 ''5'' 1 ''B''"
  have m: "idMap duplicate_id_nodes 5 = Some ?B"
    by (simp add: idMap_def duplicate_id_nodes_def plain_node_def)
  have e: "5 \<in> allParentIds duplicate_id_nodes"
    by (simp add: allParentIds_def duplicate_id_nodes_def plain_node_def)
  have p: "parentId ?B = 5" by (simp add: plain_node_def)
  have "ancestors_expanded (idMap duplicate_id_nodes) (allParentIds duplicate_id_nodes) 5 = None"
    using m p e by (rule ancestors_expanded_cycle) simp
  then have "is_visible (idMap duplicate_id_nodes) (allParentIds duplicate_id_nodes) ?B = None"
    by (simp add: is_visible_def plain_node_def)
  moreover have "?B \<in> set duplicate_id_nodes" by (simp add: duplicate_id_nodes_def)
  ultimately have "filter_option (is_visible (idMap duplicate_id_nodes) (allParentIds duplicate_id_nodes))
      duplicate_id_nodes = None"
    by (rule filter_option_None[rotated])
  then show ?thesis by (simp add: visibleItems_def duplicate_id_nodes_def)
qed

lemma filter_option_total:
  "(\<And>x. x \<in> set xs \<Longrightarrow> p x = Some (q x)) \<Longrightarrow> filter_option p xs = Some (filter q xs)"
  by (induction xs) auto

lemma is_visible_collapsed: "is_visible m {} item = Some (parentId item = 0)"
proof (cases "parentId item = 0")
  case True
  then show ?thesis by (simp add: is_visible_def)
next
  case False
  have "ancestors_expanded m {} (parentId item) = Some False"
    by (subst ancestors_expanded.simps) (simp add: False)
  with False show ?thesis by (simp add: is_visible_def)
qed

lemma visibleItems_collapsed: "visibleItems ns {} = Some (filter (\<lambda>n. parentId n = 0) ns)"
proof -
  have "filter_option (is_visible (idMap ns) {}) ns = Some (filter (\<lambda>n. parentId n = 0) ns)"
    by (rule filter_option_total) (rule is_visible_collapsed)
  then show ?thesis by (cases ns) (simp_all add: visibleItems_def)
qed

lemma idMap_distinct:
  assumes "distinct (map node_id ns)" and "j < length ns"
  shows "idMap ns (node_id (ns ! j)) = Some (ns ! j)"
proof -
  have "map fst (rev (map (\<lambda>d. (node_id d, d)) ns)) = rev (map node_id ns)"
    by (simp add: rev_map comp_def)
  with assms(1) have "distinct (map fst (rev (map (\<lambda>d. (node_id d, d)) ns)))" by simp
  moreover have "(node_id (ns ! j), ns ! j) \<in> set (rev (map (\<lambda>d. (node_id d, d)) ns))"
    using assms(2) by (auto intro!: image_eqI[of _ _ "ns ! j"])
  ultimately show ?thesis unfolding idMap_def by (simp only: map_of_eq_Some_iff)
qed

lemma allParentIds_member:
  assumes "i < length ns" and "j < length ns" and "node_id (ns ! j) = parentId (ns ! i)"
  shows "parentId (ns ! i) \<in> allParentIds ns"
proof -
  have "list_ex (\<lambda>child. parentId child = node_id (ns ! j)) ns"
    unfolding list_ex_iff using assms(1,3) by (intro bexI[of _ "ns ! i"]) simp_all
  with assms(2) have "ns ! j \<in> set (filter (\<lambda>item. list_ex (\<lambda>child. parentId child = node_id item) ns) ns)"
    by simp
  then have "node_id (ns ! j) \<in> allParentIds ns"
    unfolding allParentIds_def by (simp only: set_map image_eqI)
  with assms(3) show ?thesis by simp
qed

lemma is_visible_all_expanded:
  assumes pe: "parents_earlier ns" and d: "distinct (map node_id ns)" and i: "i < length ns"
  shows "is_visible (idMap ns) (allParentIds ns) (ns ! i) = Some True"
  using i
proof (induction i rule: less_induct)
  case (less i)
  show ?case
  proof (cases "parentId (ns ! i) = 0")
    case True
    then show ?thesis by (simp add: is_visible_def)
  next
    case False
    from parents_earlierD[OF pe less.prems] False
    obtain j where j: "j < i" "node_id (ns ! j) = parentId (ns ! i)"
      by (elim disjE exE conjE) simp_all
    from j(1) less.prems have jl: "j < length ns" by (rule less_trans)
    have mem: "parentId (ns ! i) \<in> allParentIds ns"
      using less.prems jl j(2) by (rule allParentIds_member)
    have look: "idMap ns (parentId (ns ! i)) = Some (ns ! j)"
      using idMap_distinct[OF d jl] j(2) by simp
    have step: "ancestors_expanded (idMap ns) (allParentIds ns) (parentId (ns ! i)) =
        ancestors_expanded (idMap ns) (allParentIds ns) (parentId (ns ! j))"
      by (subst ancestors_expanded.simps) (simp add: False mem look)
    have "ancestors_expanded (idMap ns) (allParentIds ns) (parentId (ns ! j)) = Some True"
    proof (cases "parentId (ns ! j) = 0")
      case True
      then show ?thesis by (subst ancestors_expanded.simps) simp
    next
      case nz: False
      from less.IH[OF j(1) jl] nz show ?thesis by (simp add: is_visible_def)
    qed
    with step False show ?thesis by (simp add: is_visible_def)
  qed
qed

lemma visibleItems_all_expanded:
  assumes "parents_earlier ns" and "distinct (map node_id ns)"
  shows "visibleItems ns (allParentIds ns) = Some ns"
proof -
  have "is_visible (idMap ns) (allParentIds ns) x = Some ((\<lambda>_. True) x)" if "x \<in> set ns" for x
  proof -
    from that obtain i where "i < length ns" "ns ! i = x" by (auto simp: in_set_conv_nth)
    with is_visible_all_expanded[OF assms, of i] show ?thesis by simp
  qed
  then have "filter_option (is_visible (idMap ns) (allParentIds ns)) ns = Some (filter (\<lambda>_. True) ns)"
    by (rule filter_option_total)
  then show ?thesis by (cases ns) (simp_all add: visibleItems_def)
qed

subsection \<open>Parent chains\<close>

lemma ancestors_expanded_terminates:
  assumes pe: "parents_earlier ns" and d: "distinct (map node_id ns)" and i: "i < length ns"
  shows "\<exists>b. ancestors_expanded (idMap ns) E (parentId (ns ! i)) = Some b"
  using i
proof (induction i rule: less_induct)
  case (less i)
  show ?case
  proof (cases "parentId (ns ! i) = 0 \<or> parentId (ns ! i) \<notin> E")
    case True
    then show ?thesis by (subst ancestors_expanded.simps) auto
  next
    case False
    then have nz: "parentId (ns ! i) \<noteq> 0" and mem: "parentId (ns ! i) \<in> E" by simp_all
    from parents_earlierD[OF pe less.prems] nz
    obtain j where j: "j < i" "node_id (ns ! j) = parentId (ns ! i)"
      by (elim disjE exE conjE) simp_all
    from j(1) less.prems have jl: "j < length ns" by (rule less_trans)
    have look: "idMap ns (parentId (ns ! i)) = Some (ns ! j)"
      using idMap_distinct[OF d jl] j(2) by simp
    have "ancestors_expanded (idMap ns) E (parentId (ns ! i)) =
        ancestors_expanded (idMap ns) E (parentId (ns ! j))"
      by (subst ancestors_expanded.simps) (simp add: nz mem look)
    with less.IH[OF j(1) jl] show ?thesis by simp
  qed
qed

text \<open>
  Claim C2, as amended. For every input document, in the node sequence emitted by the
  tree builder, the parent id of every node is 0 or the id of a node emitted strictly
  earlier: the node at position \<open>i\<close> has parent id 0 or the id of a node at a position
  \<open>j < i\<close>, so there are no forward references. The parent chain that goes from a node to
  the first node carrying its parent id, as the keyword search follows it, always comes
  to an end. The parent chain that goes through the id map of the projector, which holds
  the last node carrying each id, comes to an end, whatever the expanded set, when the
  ids are pairwise distinct.
\<close>

theorem parent_ids_refer_backwards:
  assumes "parseRosettaNetHtml doc = Inr ns" and "i < length ns"
  shows "(parentId (ns ! i) = 0 \<or> (\<exists>j<i. node_id (ns ! j) = parentId (ns ! i))) \<and>
         (\<exists>A. add_ancestors ns (parentId (ns ! i)) {} = Some A) \<and>
         (distinct (map node_id ns) \<longrightarrow>
            (\<exists>b. ancestors_expanded (idMap ns) E (parentId (ns ! i)) = Some b))"
proof -
  from assms(1) have pe: "parents_earlier ns" by (rule parse_parents_earlier)
  from pe assms(2) have "parentId (ns ! i) = 0 \<or> (\<exists>j<i. node_id (ns ! j) = parentId (ns ! i))"
    by (rule parents_earlierD)
  moreover from pe assms(2) have "\<exists>A. add_ancestors ns (parentId (ns ! i)) {} = Some A"
    by (rule add_ancestors_from_position)
  moreover have "distinct (map node_id ns) \<longrightarrow>
            (\<exists>b. ancestors_expanded (idMap ns) E (parentId (ns ! i)) = Some b)"
    using ancestors_expanded_terminates[OF pe _ assms(2)] by blast
  ultimately show ?thesis by (intro conjI)
qed

theorem parent_ids_refer_backwards_witness:
  "parseRosettaNetHtml round_trip_doc = Inr round_trip_nodes \<and>
   2 < length round_trip_nodes \<and>
   distinct (map node_id round_trip_nodes) \<and>
   (parentId (round_trip_nodes ! 2) = 0 \<or>
    (\<exists>j<2. node_id (round_trip_nodes ! j) = parentId (round_trip_nodes ! 2))) \<and>
   (\<exists>A. add_ancestors round_trip_nodes (parentId (round_trip_nodes ! 2)) {} = Some A) \<and>
   (\<exists>b. ancestors_expanded (idMap round_trip_nodes) UNIV (parentId (round_trip_nodes ! 2)) =
          Some b)"
proof -
  have len: "2 < length round_trip_nodes" by (simp add: round_trip_nodes_def)
  have d: "distinct (map node_id round_trip_nodes)"
    by (simp add: round_trip_nodes_def plain_node_def)
  note t = parent_ids_refer_backwards[OF parse_round_trip_doc len, of UNIV]
  from t have a: "parentId (round_trip_nodes ! 2) = 0 \<or>
    (\<exists>j<2. node_id (round_trip_nodes ! j) = parentId (round_trip_nodes ! 2))"
    by (rule conjunct1)
  from t have b: "\<exists>A. add_ancestors round_trip_nodes (parentId (round_trip_nodes ! 2)) {} = Some A"
    by (elim conjE)
  from t d have c: "\<exists>b. ancestors_expanded (idMap round_trip_nodes) UNIV
      (parentId (round_trip_nodes ! 2)) = Some b"
    by (elim conjE impE)
  from parse_round_trip_doc len d a b c show ?thesis by (intro conjI)
qed

text \<open>
  The claim as stated, with no cycles in the parent chains of any document, fails for
  the chains of the projector. The field numbers 9007199254740992 and 9007199254740993
  give both rows the id 9007199254740992; the second row, one level below the first,
  gets that id as its parent id as well, the id map sends the id to the second row, and
  the walk from the second row to its parent comes back to the second row for ever.
\<close>

theorem parent_chain_cycle_counterexample:
  "parseRosettaNetHtml rounded_id_doc = Inr rounded_id_nodes \<and>
   parentId (rounded_id_nodes ! 1) = node_id (rounded_id_nodes ! 1) \<and>
   parentId (rounded_id_nodes ! 1) \<noteq> 0 \<and>
   idMap rounded_id_nodes (parentId (rounded_id_nodes ! 1)) = Some (rounded_id_nodes ! 1) \<and>
   ancestors_expanded (idMap rounded_id_nodes) UNIV (parentId (rounded_id_nodes ! 1)) = None"
proof -
  have p: "parentId (rounded_id_nodes ! 1) = node_id (rounded_id_nodes ! 1)"
    and nz: "parentId (rounded_id_nodes ! 1) \<noteq> 0"
    by (simp_all add: rounded_id_nodes_def plain_node_def)
  have m: "idMap rounded_id_nodes (parentId (rounded_id_nodes ! 1)) = Some (rounded_id_nodes ! 1)"
    by (simp add: idMap_def rounded_id_nodes_def plain_node_def)
  have "ancestors_expanded (idMap rounded_id_nodes) UNIV (parentId (rounded_id_nodes ! 1)) = None"
    using m refl UNIV_I nz by (rule ancestors_expanded_cycle)
  with parse_rounded_id_doc p nz m show ?thesis by (intro conjI)
qed

text \<open>
  Claim C3, as amended. For every node list, the projection with the empty set that
  \<^verbatim>\<open>collapseAll\<close> installs returns the nodes with parent id 0 in their order. For every
  node list produced by a parse in which the ids are pairwise distinct, the projection
  with the set that \<^verbatim>\<open>expandAll\<close> installs (the ids with at least one child) returns the
  whole node list in its order.
\<close>

theorem projection_after_expand_and_collapse:
  "visibleItems (data st) (expandedIds (collapseAll st)) =
     Some (filter (\<lambda>n. parentId n = 0) (data st)) \<and>
   (parseRosettaNetHtml doc = Inr (data st) \<and> distinct (map node_id (data st)) \<longrightarrow>
      visibleItems (data st) (expandedIds (expandAll st)) = Some (data st))"
proof -
  have "visibleItems (data st) (expandedIds (collapseAll st)) =
     Some (filter (\<lambda>n. parentId n = 0) (data st))"
    by (simp add: collapseAll_def visibleItems_collapsed)
  moreover have "visibleItems (data st) (expandedIds (expandAll st)) = Some (data st)"
    if "parseRosettaNetHtml doc = Inr (data st)" and "distinct (map node_id (data st))"
  proof -
    from that(1) have "parents_earlier (data st)" by (rule parse_parents_earlier)
    then have "visibleItems (data st) (allParentIds (data st)) = Some (data st)"
      using that(2) by (rule visibleItems_all_expanded)
    then show ?thesis by (simp add: expandAll_def)
  qed
  ultimately show ?thesis by blast
qed

theorem projection_after_expand_and_collapse_witness:
  "parseRosettaNetHtml round_trip_doc =
     Inr (data (handleDataLoaded initial_state round_trip_nodes)) \<and>
   distinct (map node_id (data (handleDataLoaded initial_state round_trip_nodes))) \<and>
   visibleItems round_trip_nodes
     (expandedIds (expandAll (handleDataLoaded initial_state round_trip_nodes))) =
     Some round_trip_nodes \<and>
   visibleItems round_trip_nodes
     (expandedIds (collapseAll (handleDataLoaded initial_state round_trip_nodes))) =
     Some [plain_node 1 0 ''1'' 0 ''Pip3A4.Root'']"
proof -
  let ?st = "handleDataLoaded initial_state round_trip_nodes"
  have st: "data ?st = round_trip_nodes"
    by (simp add: handleDataLoaded_def)
  have p: "parseRosettaNetHtml round_trip_doc = Inr (data ?st)"
    unfolding st by (rule parse_round_trip_doc)
  have d: "distinct (map node_id (data ?st))"
    unfolding st by (simp add: round_trip_nodes_def plain_node_def)
  have f: "filter (\<lambda>n. parentId n = 0) round_trip_nodes = [plain_node 1 0 ''1'' 0 ''Pip3A4.Root'']"
    by (simp add: round_trip_nodes_def plain_node_def)
  note t = projection_after_expand_and_collapse[of ?st round_trip_doc]
  from t have c: "visibleItems round_trip_nodes (expandedIds (collapseAll ?st)) =
      Some [plain_node 1 0 ''1'' 0 ''Pip3A4.Root'']"
    unfolding st f by (rule conjunct1)
  from t p d have e: "visibleItems round_trip_nodes (expandedIds (expandAll ?st)) =
      Some round_trip_nodes"
    unfolding st by (elim conjE impE) simp_all
  from p d e c show ?thesis by (intro conjI)
qed

text \<open>
  The claim as stated, for every node list produced by a parse, fails on a document
  that repeats a field number: the parse succeeds, and the projection with the set of
  \<^verbatim>\<open>expandAll\<close> never returns, because the id map sends the repeated id to the later row,
  which is its own parent.
\<close>

theorem projection_expand_all_counterexample:
  "parseRosettaNetHtml duplicate_id_doc = Inr duplicate_id_nodes \<and>
   visibleItems duplicate_id_nodes
     (expandedIds (expandAll (handleDataLoaded initial_state duplicate_id_nodes))) = None"
  using parse_duplicate_id_doc duplicate_id_projection
  by (simp add: expandAll_def handleDataLoaded_def)

section \<open>Path resolution\<close>

lemma last_resolved_Cons: "last_resolved (Some x) xs = last_resolved m (x # xs)"
  by (simp add: last_resolved_def)

lemma resolve_matched:
  "fst (resolve ns cur m e segs) = last_resolved m (resolved_nodes ns cur segs)"
proof (induction ns cur m e segs rule: resolve.induct)
  case (1 ns cur m e)
  show ?case by (simp add: last_resolved_def)
next
  case (2 ns cur m e segment rest)
  define children where "children = children_of ns cur"
  define compound where "compound =
            (case rest of
               [] \<Rightarrow> None
             | nextSegment # _ \<Rightarrow>
                 if nextSegment = [] then None
                 else find (name_matches (segment @ ''.'' @ nextSegment)) children)"
  note IH = 2[OF children_def compound_def]
  show ?case
  proof (cases compound)
    case (Some match)
    from IH(3)[OF Some] show ?thesis
      by (simp add: Some last_resolved_Cons[symmetric] flip: children_def compound_def)
  next
    case None
    show ?thesis
    proof (cases "find (name_matches segment) children")
      case (Some match)
      from IH(2)[OF None Some] show ?thesis
        by (simp add: None Some last_resolved_Cons[symmetric] flip: children_def compound_def)
    next
      case n2: None
      show ?thesis
      proof (cases "find is_choice children")
        case None' : None
        show ?thesis
          by (simp add: None n2 None' last_resolved_def flip: children_def compound_def)
      next
        case (Some choiceNode)
        show ?thesis
        proof (cases "find (name_matches segment) (children_of ns (node_id choiceNode))")
          case n3: None
          show ?thesis
            by (simp add: None n2 Some n3 last_resolved_def flip: children_def compound_def)
        next
          case s3: (Some matchInChoice)
          from IH(1)[OF None n2 Some s3] show ?thesis
            by (simp add: None n2 Some s3 last_resolved_Cons[symmetric] flip: children_def compound_def)
        qed
      qed
    qed
  qed
qed

lemma resolve_expanded_mono: "e \<subseteq> snd (resolve ns cur m e segs)"
proof (induction ns cur m e segs rule: resolve.induct)
  case (1 ns cur m e)
  show ?case by simp
next
  case (2 ns cur m e segment rest)
  define children where "children = children_of ns cur"
  define compound where "compound =
            (case rest of
               [] \<Rightarrow> None
             | nextSegment # _ \<Rightarrow>
                 if nextSegment = [] then None
                 else find (name_matches (segment @ ''.'' @ nextSegment)) children)"
  note IH = 2[OF children_def compound_def]
  show ?case
  proof (cases compound)
    case (Some match)
    from IH(3)[OF Some] show ?thesis
      by (simp add: Some flip: children_def compound_def)
  next
    case None
    show ?thesis
    proof (cases "find (name_matches segment) children")
      case (Some match)
      from IH(2)[OF None Some] show ?thesis
        by (simp add: None Some flip: children_def compound_def)
    next
      case n2: None
      show ?thesis
      proof (cases "find is_choice children")
        case None' : None
        show ?thesis
          by (simp add: None n2 None' flip: children_def compound_def)
      next
        case (Some choiceNode)
        show ?thesis
        proof (cases "find (name_matches segment) (children_of ns (node_id choiceNode))")
          case n3: None
          show ?thesis
            by (simp add: None n2 Some n3 flip: children_def compound_def)
        next
          case s3: (Some matchInChoice)
          from IH(1)[OF None n2 Some s3] show ?thesis
            by (simp add: None n2 Some s3 flip: children_def compound_def)
        qed
      qed
    qed
  qed
qed

lemma choice_nodes_search:
  "search_effect (handleDataLoaded initial_state choice_nodes) ''/Pip3A4/ServiceHeader/ProcessControl'' =
     Some \<lparr>data = choice_nodes, expandedIds = {1, 2, 3}, highlightedIds = {3}, searchMode = Path\<rparr>"
  by (simp add: handleDataLoaded_def initial_state_def choice_nodes_def search_eval js_eval insert_commute)

lemma two_choice_search:
  "search_effect (handleDataLoaded initial_state two_choice_nodes) ''A/B'' =
     Some \<lparr>data = two_choice_nodes, expandedIds = {1}, highlightedIds = {1}, searchMode = Path\<rparr>"
  by (simp add: handleDataLoaded_def initial_state_def two_choice_nodes_def search_eval js_eval insert_commute)

lemma path_search_unfold:
  assumes "data st \<noteq> []" and "trim q \<noteq> []" and "is_path_query (trim q)"
  shows "search_effect st q = Some (path_search st (trim q))"
  using assms by (simp add: search_effect_def)

lemma path_search_cases:
  "path_search st t =
     (case last_resolved None (resolved_nodes (data st) 0 (path_segments t)) of
        None \<Rightarrow> st\<lparr>searchMode := Path, highlightedIds := {}\<rparr>
      | Some m \<Rightarrow>
          if m \<noteq> 0
          then st\<lparr>searchMode := Path,
                  expandedIds := snd (resolve (data st) 0 None {} (path_segments t)),
                  highlightedIds := {m}\<rparr>
          else st\<lparr>searchMode := Path, highlightedIds := {}\<rparr>)"
proof -
  obtain a b where r: "resolve (data st) 0 None {} (path_segments t) = (a, b)"
    by (cases "resolve (data st) 0 None {} (path_segments t)")
  from resolve_matched[of "data st" 0 None "{}" "path_segments t"] r
  have l: "last_resolved None (resolved_nodes (data st) 0 (path_segments t)) = a" by simp
  show ?thesis unfolding l path_search_def r by (cases a) simp_all
qed

text \<open>
  Claim C8, as amended. In path-mode resolution, when neither the compound match nor the
  single match succeeds at a segment, and the \<^emph>\<open>first\<close> child of the current node that is
  literally named \<^verbatim>\<open>Choice\<close> or \<^verbatim>\<open>(Choice)\<close> has a child matching the segment under the
  single-match rule, resolution descends through it: the id of the \<^verbatim>\<open>Choice\<close> node and the
  id of the first matching grandchild are both added to the expanded set, the grandchild
  becomes the current node and the last resolved node, and exactly one segment is
  consumed.
\<close>

theorem choice_fallback_descends:
  assumes compound: "(case rest of
               [] \<Rightarrow> None
             | nextSegment # _ \<Rightarrow>
                 if nextSegment = [] then None
                 else find (name_matches (segment @ ''.'' @ nextSegment)) (children_of ns cur)) = None"
    and single: "find (name_matches segment) (children_of ns cur) = None"
    and choice: "find is_choice (children_of ns cur) = Some choiceNode"
    and inner: "find (name_matches segment) (children_of ns (node_id choiceNode)) = Some g"
  shows "resolve ns cur m e (segment # rest) =
           resolve ns (node_id g) (Some (node_id g))
             (insert (node_id g) (insert (node_id choiceNode) e)) rest \<and>
         resolved_nodes ns cur (segment # rest) = node_id g # resolved_nodes ns (node_id g) rest \<and>
         {node_id choiceNode, node_id g} \<subseteq> snd (resolve ns cur m e (segment # rest))"
proof -
  have step: "resolve ns cur m e (segment # rest) =
           resolve ns (node_id g) (Some (node_id g))
             (insert (node_id g) (insert (node_id choiceNode) e)) rest"
    using assms by simp
  have trace: "resolved_nodes ns cur (segment # rest) = node_id g # resolved_nodes ns (node_id g) rest"
    using assms by simp
  have "insert (node_id g) (insert (node_id choiceNode) e) \<subseteq>
      snd (resolve ns (node_id g) (Some (node_id g))
             (insert (node_id g) (insert (node_id choiceNode) e)) rest)"
    by (rule resolve_expanded_mono)
  with step have "{node_id choiceNode, node_id g} \<subseteq> snd (resolve ns cur m e (segment # rest))"
    by auto
  with step trace show ?thesis by blast
qed

theorem choice_fallback_descends_witness:
  "(case ([] :: string list) of
      [] \<Rightarrow> None
    | nextSegment # _ \<Rightarrow>
        if nextSegment = [] then None
        else find (name_matches (''ProcessControl'' @ ''.'' @ nextSegment))
               (children_of choice_nodes 1)) = None \<and>
   find (name_matches ''ProcessControl'') (children_of choice_nodes 1) = None \<and>
   find is_choice (children_of choice_nodes 1) = Some (plain_node 2 1 ''2'' 1 ''Choice'') \<and>
   find (name_matches ''ProcessControl'') (children_of choice_nodes 2) =
     Some (plain_node 3 2 ''3'' 2 ''ProcessControl'') \<and>
   resolve choice_nodes 1 (Some 1) {1} [''ProcessControl''] = (Some 3, {1, 2, 3}) \<and>
   resolved_nodes choice_nodes 1 [''ProcessControl''] = [3] \<and>
   search_effect (handleDataLoaded initial_state choice_nodes)
       ''/Pip3A4/ServiceHeader/ProcessControl'' =
     Some \<lparr>data = choice_nodes, expandedIds = {1, 2, 3}, highlightedIds = {3},
           searchMode = Path\<rparr>"
proof -
  have single: "find (name_matches ''ProcessControl'') (children_of choice_nodes 1) = None"
    by (simp add: choice_nodes_def search_eval js_eval)
  have choice: "find is_choice (children_of choice_nodes 1) = Some (plain_node 2 1 ''2'' 1 ''Choice'')"
    by (simp add: choice_nodes_def search_eval js_eval)
  have inner: "find (name_matches ''ProcessControl'')
      (children_of choice_nodes (node_id (plain_node 2 1 ''2'' 1 ''Choice''))) =
     Some (plain_node 3 2 ''3'' 2 ''ProcessControl'')"
    by (simp add: choice_nodes_def search_eval js_eval)
  have compound: "(case ([] :: string list) of
      [] \<Rightarrow> None
    | nextSegment # _ \<Rightarrow>
        if nextSegment = [] then None
        else find (name_matches (''ProcessControl'' @ ''.'' @ nextSegment))
               (children_of choice_nodes 1)) = None"
    by simp
  have ids: "node_id (plain_node 2 1 ''2'' 1 ''Choice'') = 2"
    "node_id (plain_node 3 2 ''3'' 2 ''ProcessControl'') = 3"
    by (simp_all add: plain_node_def)
  note fallback = choice_fallback_descends[OF compound single choice inner, of "Some 1" "{1}"]
  from fallback have "resolve choice_nodes 1 (Some 1) {1} [''ProcessControl''] =
      resolve choice_nodes (node_id (plain_node 3 2 ''3'' 2 ''ProcessControl''))
        (Some (node_id (plain_node 3 2 ''3'' 2 ''ProcessControl'')))
        (insert (node_id (plain_node 3 2 ''3'' 2 ''ProcessControl''))
          (insert (node_id (plain_node 2 1 ''2'' 1 ''Choice'')) {1})) []"
    by (rule conjunct1)
  also have "\<dots> = (Some 3, {1, 2, 3})"
    by (simp add: plain_node_def insert_commute)
  finally have r: "resolve choice_nodes 1 (Some 1) {1} [''ProcessControl''] = (Some 3, {1, 2, 3})" .
  from fallback have "resolved_nodes choice_nodes 1 [''ProcessControl''] =
      node_id (plain_node 3 2 ''3'' 2 ''ProcessControl'') #
      resolved_nodes choice_nodes (node_id (plain_node 3 2 ''3'' 2 ''ProcessControl'')) []"
    by (elim conjE)
  also have "\<dots> = [3]"
    by (simp add: plain_node_def)
  finally have t: "resolved_nodes choice_nodes 1 [''ProcessControl''] = [3]" .
  note r t
  with compound single choice inner choice_nodes_search show ?thesis
    unfolding ids by (intro conjI)
qed

text \<open>
  The claim as stated, for any child named \<^verbatim>\<open>Choice\<close> with a matching child, fails when
  that child is not the first one so named. Node 1 has the children 2 and 4, both named
  \<^verbatim>\<open>Choice\<close>; \<^verbatim>\<open>B\<close> is under 4. Neither compound nor single match succeeds for \<^verbatim>\<open>B\<close> at
  node 1, node 4 is a \<^verbatim>\<open>Choice\<close> child whose child 5 matches, and yet the resolution stops at
  node 1.
\<close>

theorem choice_fallback_counterexample:
  "find (name_matches ''B'') (children_of two_choice_nodes 1) = None \<and>
   plain_node 4 1 ''4'' 1 ''Choice'' \<in> set (children_of two_choice_nodes 1) \<and>
   is_choice (plain_node 4 1 ''4'' 1 ''Choice'') \<and>
   find (name_matches ''B'') (children_of two_choice_nodes 4) =
     Some (plain_node 5 4 ''5'' 2 ''B'') \<and>
   resolve two_choice_nodes 1 (Some 1) {1} [''B''] = (Some 1, {1}) \<and>
   search_effect (handleDataLoaded initial_state two_choice_nodes) ''A/B'' =
     Some \<lparr>data = two_choice_nodes, expandedIds = {1}, highlightedIds = {1},
           searchMode = Path\<rparr>"
proof -
  have "find (name_matches ''B'') (children_of two_choice_nodes 1) = None"
    by (simp add: two_choice_nodes_def search_eval js_eval)
  moreover have "plain_node 4 1 ''4'' 1 ''Choice'' \<in> set (children_of two_choice_nodes 1)"
    by (simp add: two_choice_nodes_def search_eval)
  moreover have "is_choice (plain_node 4 1 ''4'' 1 ''Choice'')"
    by (simp add: search_eval)
  moreover have "find (name_matches ''B'') (children_of two_choice_nodes 4) =
     Some (plain_node 5 4 ''5'' 2 ''B'')"
    by (simp add: two_choice_nodes_def search_eval js_eval)
  moreover have "resolve two_choice_nodes 1 (Some 1) {1} [''B''] = (Some 1, {1})"
    by (simp add: two_choice_nodes_def search_eval js_eval)
  ultimately show ?thesis using two_choice_search by blast
qed

section \<open>The round-trip tree and its path query\<close>

lemma parse_zero_id_doc: "parseRosettaNetHtml zero_id_doc = Inr zero_id_nodes"
  by (simp add: zero_id_doc_def zero_id_nodes_def parse_eval js_eval)

lemma parse_zero_root_doc: "parseRosettaNetHtml zero_root_doc = Inr zero_root_nodes"
  by (simp add: zero_root_doc_def zero_root_nodes_def parse_eval js_eval)

lemma round_trip_query:
  "search_effect (handleDataLoaded initial_state round_trip_nodes)
       ''/Pip3A4/ServiceHeader/ProcessControl'' =
     Some \<lparr>data = round_trip_nodes, expandedIds = {}, highlightedIds = {}, searchMode = Path\<rparr>"
  by (simp add: handleDataLoaded_def initial_state_def round_trip_nodes_def search_eval js_eval)

lemma round_trip_query_with_root:
  "search_effect (handleDataLoaded initial_state round_trip_nodes)
       ''/Pip3A4/Pip3A4.Root/ServiceHeader/ProcessControl'' =
     Some \<lparr>data = round_trip_nodes, expandedIds = {1, 2, 3}, highlightedIds = {3},
           searchMode = Path\<rparr>"
  by (simp add: handleDataLoaded_def initial_state_def round_trip_nodes_def search_eval js_eval
      insert_commute)

lemma toggled_two_choice_eq:
  "toggled_two_choice =
     \<lparr>data = two_choice_nodes, expandedIds = {4}, highlightedIds = {}, searchMode = Keyword\<rparr>"
  by (simp add: toggled_two_choice_def toggleNode_def handleDataLoaded_def initial_state_def)

lemma path_query_hyps:
  "trim ''/A'' \<noteq> []" "is_path_query (trim ''/A'')"
  "trim ''/Z'' \<noteq> []" "is_path_query (trim ''/Z'')"
  "trim ''/A/B'' \<noteq> []" "is_path_query (trim ''/A/B'')"
  "path_segments (trim ''/A'') = [''A'']"
  "path_segments (trim ''/Z'') = [''Z'']"
  "path_segments (trim ''/A/B'') = [''A'', ''B'']"
  by (simp_all add: search_eval js_eval)

text \<open>
  Claim C1, as amended. The round-trip document parses into node 1 \<^verbatim>\<open>Pip3A4.Root\<close>
  (level 0, parent 0), node 2 \<^verbatim>\<open>ServiceHeader\<close> (level 1, parent 1) and node 3
  \<^verbatim>\<open>ProcessControl\<close> (level 2, parent 2). On that tree the path query
  \<^verbatim>\<open>/Pip3A4/ServiceHeader/ProcessControl\<close> resolves no segment: the prefix \<^verbatim>\<open>/Pip3A4/\<close> is
  stripped, the segments are \<^verbatim>\<open>ServiceHeader\<close> and \<^verbatim>\<open>ProcessControl\<close>, and the first is looked
  up among the nodes with parent 0, where only \<^verbatim>\<open>Pip3A4.Root\<close> is; the highlighted set
  becomes empty and the expanded set stays as it was. The query that names the root row
  after the prefix, \<^verbatim>\<open>/Pip3A4/Pip3A4.Root/ServiceHeader/ProcessControl\<close>, makes the
  highlighted set exactly \<open>{3}\<close> and the expanded set \<open>{1, 2, 3}\<close>, which holds the
  ancestors 1 and 2.
\<close>

theorem round_trip_path_query:
  "parseRosettaNetHtml round_trip_doc = Inr round_trip_nodes \<and>
   path_segments (trim ''/Pip3A4/ServiceHeader/ProcessControl'') =
     [''ServiceHeader'', ''ProcessControl''] \<and>
   children_of round_trip_nodes 0 = [plain_node 1 0 ''1'' 0 ''Pip3A4.Root''] \<and>
   search_effect (handleDataLoaded initial_state round_trip_nodes)
       ''/Pip3A4/ServiceHeader/ProcessControl'' =
     Some \<lparr>data = round_trip_nodes, expandedIds = {}, highlightedIds = {}, searchMode = Path\<rparr> \<and>
   search_effect (handleDataLoaded initial_state round_trip_nodes)
       ''/Pip3A4/Pip3A4.Root/ServiceHeader/ProcessControl'' =
     Some \<lparr>data = round_trip_nodes, expandedIds = {1, 2, 3}, highlightedIds = {3},
           searchMode = Path\<rparr>"
proof -
  have "path_segments (trim ''/Pip3A4/ServiceHeader/ProcessControl'') =
     [''ServiceHeader'', ''ProcessControl'']"
    by (simp add: search_eval js_eval)
  moreover have "children_of round_trip_nodes 0 = [plain_node 1 0 ''1'' 0 ''Pip3A4.Root'']"
    by (simp add: round_trip_nodes_def search_eval)
  ultimately show ?thesis
    using parse_round_trip_doc round_trip_query round_trip_query_with_root by blast
qed

text \<open>
  The claim as stated fails: after the query \<^verbatim>\<open>/Pip3A4/ServiceHeader/ProcessControl\<close> on the
  round-trip tree the highlighted set is empty, not \<open>{3}\<close>.
\<close>

theorem round_trip_path_query_counterexample:
  "map_option highlightedIds
     (search_effect (handleDataLoaded initial_state round_trip_nodes)
        ''/Pip3A4/ServiceHeader/ProcessControl'') = Some {} \<and>
   map_option highlightedIds
     (search_effect (handleDataLoaded initial_state round_trip_nodes)
        ''/Pip3A4/ServiceHeader/ProcessControl'') \<noteq> Some {3}"
  by (simp add: round_trip_query)

section \<open>The result of a path query\<close>

text \<open>
  Claim C7, as amended. For every path-mode query on a loaded tree: if at least one
  segment resolved and the last node resolved has an id other than 0, the expanded set
  is replaced by the accumulated expansions (the previous set plays no part in it) and
  the highlighted set becomes the singleton of the id of the last node resolved; if no
  segment resolved, the highlighted set becomes empty and the expanded set is left as
  it was.
\<close>

theorem path_result_replaces_or_keeps:
  assumes "data st \<noteq> []" and "trim q \<noteq> []" and "is_path_query (trim q)"
  shows "\<exists>st'. search_effect st q = Some st' \<and>
     (resolved_nodes (data st) 0 (path_segments (trim q)) = [] \<longrightarrow>
        highlightedIds st' = {} \<and> expandedIds st' = expandedIds st) \<and>
     (resolved_nodes (data st) 0 (path_segments (trim q)) \<noteq> [] \<and>
      last (resolved_nodes (data st) 0 (path_segments (trim q))) \<noteq> 0 \<longrightarrow>
        highlightedIds st' = {last (resolved_nodes (data st) 0 (path_segments (trim q)))} \<and>
        expandedIds st' = snd (resolve (data st) 0 None {} (path_segments (trim q))))"
proof -
  have "search_effect st q = Some (path_search st (trim q))"
    using assms by (rule path_search_unfold)
  moreover have "resolved_nodes (data st) 0 (path_segments (trim q)) = [] \<longrightarrow>
        highlightedIds (path_search st (trim q)) = {} \<and>
        expandedIds (path_search st (trim q)) = expandedIds st"
    by (simp add: path_search_cases last_resolved_def)
  moreover have "resolved_nodes (data st) 0 (path_segments (trim q)) \<noteq> [] \<and>
      last (resolved_nodes (data st) 0 (path_segments (trim q))) \<noteq> 0 \<longrightarrow>
        highlightedIds (path_search st (trim q)) =
          {last (resolved_nodes (data st) 0 (path_segments (trim q)))} \<and>
        expandedIds (path_search st (trim q)) =
          snd (resolve (data st) 0 None {} (path_segments (trim q)))"
    by (simp add: path_search_cases last_resolved_def)
  ultimately show ?thesis by blast
qed

theorem path_result_replaces_or_keeps_witness:
  "data toggled_two_choice \<noteq> [] \<and> expandedIds toggled_two_choice = {4} \<and>
   trim ''/A'' \<noteq> [] \<and> is_path_query (trim ''/A'') \<and>
   resolved_nodes (data toggled_two_choice) 0 (path_segments (trim ''/A'')) = [1] \<and>
   (\<exists>st'. search_effect toggled_two_choice ''/A'' = Some st' \<and>
          highlightedIds st' = {1} \<and> expandedIds st' = {1}) \<and>
   trim ''/Z'' \<noteq> [] \<and> is_path_query (trim ''/Z'') \<and>
   resolved_nodes (data toggled_two_choice) 0 (path_segments (trim ''/Z'')) = [] \<and>
   (\<exists>st'. search_effect toggled_two_choice ''/Z'' = Some st' \<and>
          highlightedIds st' = {} \<and> expandedIds st' = {4})"
proof -
  have d: "data toggled_two_choice \<noteq> []" and e: "expandedIds toggled_two_choice = {4}"
    by (simp_all add: toggled_two_choice_eq two_choice_nodes_def)
  have trA: "resolved_nodes (data toggled_two_choice) 0 (path_segments (trim ''/A'')) = [1]"
    by (simp add: toggled_two_choice_eq path_query_hyps two_choice_nodes_def search_eval js_eval)
  have rsA: "snd (resolve (data toggled_two_choice) 0 None {} (path_segments (trim ''/A''))) = {1}"
    by (simp add: toggled_two_choice_eq path_query_hyps two_choice_nodes_def search_eval js_eval)
  have trZ: "resolved_nodes (data toggled_two_choice) 0 (path_segments (trim ''/Z'')) = []"
    by (simp add: toggled_two_choice_eq path_query_hyps two_choice_nodes_def search_eval js_eval)
  from path_result_replaces_or_keeps[OF d path_query_hyps(1,2)]
  have A: "\<exists>st'. search_effect toggled_two_choice ''/A'' = Some st' \<and>
          highlightedIds st' = {1} \<and> expandedIds st' = {1}"
    unfolding trA rsA by simp
  from path_result_replaces_or_keeps[OF d path_query_hyps(3,4)]
  have Z: "\<exists>st'. search_effect toggled_two_choice ''/Z'' = Some st' \<and>
          highlightedIds st' = {} \<and> expandedIds st' = {4}"
    unfolding trZ e by simp
  from d e trA trZ A Z path_query_hyps(1-4) show ?thesis by (intro conjI)
qed

text \<open>
  The claim as stated fails when the last node resolved has id 0. The rows \<^verbatim>\<open>1 A\<close> and
  \<^verbatim>\<open>0 |--B\<close> parse into node 1 and its child with id 0; the query \<^verbatim>\<open>/A/B\<close> resolves both
  segments and accumulates the expansions \<open>{0, 1}\<close>, but the highlighted set becomes
  empty and the expanded set stays empty.
\<close>

theorem path_result_counterexample:
  "parseRosettaNetHtml zero_id_doc = Inr zero_id_nodes \<and>
   resolved_nodes zero_id_nodes 0 (path_segments (trim ''/A/B'')) = [1, 0] \<and>
   resolve zero_id_nodes 0 None {} (path_segments (trim ''/A/B'')) = (Some 0, {0, 1}) \<and>
   search_effect (handleDataLoaded initial_state zero_id_nodes) ''/A/B'' =
     Some \<lparr>data = zero_id_nodes, expandedIds = {}, highlightedIds = {}, searchMode = Path\<rparr>"
proof -
  have "resolved_nodes zero_id_nodes 0 (path_segments (trim ''/A/B'')) = [1, 0]"
    by (simp add: path_query_hyps zero_id_nodes_def search_eval js_eval)
  moreover have "resolve zero_id_nodes 0 None {} (path_segments (trim ''/A/B'')) = (Some 0, {0, 1})"
    by (simp add: path_query_hyps zero_id_nodes_def search_eval js_eval insert_commute)
  moreover have "search_effect (handleDataLoaded initial_state zero_id_nodes) ''/A/B'' =
     Some \<lparr>data = zero_id_nodes, expandedIds = {}, highlightedIds = {}, searchMode = Path\<rparr>"
    by (simp add: handleDataLoaded_def initial_state_def zero_id_nodes_def search_eval js_eval)
  ultimately show ?thesis using parse_zero_id_doc by blast
qed

text \<open>
  Claim C10. In path mode, if the last node resolved has id 0, which a row gets when
  its field-number token strips to the digits \<^verbatim>\<open>0\<close>, the test on the matched id takes the
  resolution for a failure: the highlighted set is emptied and the expanded set is left
  as it was, although at least one segment resolved.
\<close>

theorem zero_id_match_is_failure:
  assumes "data st \<noteq> []" and "trim q \<noteq> []" and "is_path_query (trim q)"
    and "resolved_nodes (data st) 0 (path_segments (trim q)) \<noteq> []"
    and "last (resolved_nodes (data st) 0 (path_segments (trim q))) = 0"
  shows "\<exists>st'. search_effect st q = Some st' \<and>
           highlightedIds st' = {} \<and> expandedIds st' = expandedIds st"
proof -
  have "search_effect st q = Some (path_search st (trim q))"
    using assms(1-3) by (rule path_search_unfold)
  moreover have "highlightedIds (path_search st (trim q)) = {} \<and>
      expandedIds (path_search st (trim q)) = expandedIds st"
    using assms(4,5) by (simp add: path_search_cases last_resolved_def)
  ultimately show ?thesis by blast
qed

theorem zero_id_match_is_failure_witness:
  "parseRosettaNetHtml zero_root_doc = Inr zero_root_nodes \<and>
   data (toggleNode (handleDataLoaded initial_state zero_root_nodes) 7) \<noteq> [] \<and>
   trim ''/A'' \<noteq> [] \<and> is_path_query (trim ''/A'') \<and>
   resolved_nodes (data (toggleNode (handleDataLoaded initial_state zero_root_nodes) 7)) 0
     (path_segments (trim ''/A'')) = [0] \<and>
   (\<exists>st'. search_effect (toggleNode (handleDataLoaded initial_state zero_root_nodes) 7) ''/A'' =
            Some st' \<and>
          highlightedIds st' = {} \<and> expandedIds st' = {7})"
proof -
  let ?st = "toggleNode (handleDataLoaded initial_state zero_root_nodes) 7"
  have st: "?st = \<lparr>data = zero_root_nodes, expandedIds = {7}, highlightedIds = {},
      searchMode = Keyword\<rparr>"
    by (simp add: toggleNode_def handleDataLoaded_def initial_state_def)
  have d: "data ?st \<noteq> []" unfolding st by (simp add: zero_root_nodes_def)
  have tr: "resolved_nodes (data ?st) 0 (path_segments (trim ''/A'')) = [0]"
    unfolding st by (simp add: path_query_hyps zero_root_nodes_def search_eval js_eval)
  have ne: "resolved_nodes (data ?st) 0 (path_segments (trim ''/A'')) \<noteq> []"
    and l: "last (resolved_nodes (data ?st) 0 (path_segments (trim ''/A''))) = 0"
    by (simp_all add: tr)
  from zero_id_match_is_failure[OF d path_query_hyps(1,2) ne l]
  have "\<exists>st'. search_effect ?st ''/A'' = Some st' \<and>
          highlightedIds st' = {} \<and> expandedIds st' = expandedIds ?st" .
  moreover have "expandedIds ?st = {7}" unfolding st by simp
  ultimately have "\<exists>st'. search_effect ?st ''/A'' = Some st' \<and>
          highlightedIds st' = {} \<and> expandedIds st' = {7}"
    by simp
  with parse_zero_root_doc d tr path_query_hyps(1,2) show ?thesis by (intro conjI)
qed

section \<open>Keyword search\<close>

lemma parse_upper_field_doc: "parseRosettaNetHtml upper_field_doc = Inr upper_field_nodes"
  by (simp add: upper_field_doc_def upper_field_nodes_def parse_eval js_eval)

lemma expand_matches_terminates:
  assumes pe: "parents_earlier ns" and "set ms \<subseteq> set ns"
  shows "\<exists>E'. expand_matches ns ms E = Some E'"
  using assms(2)
proof (induction ms arbitrary: E)
  case Nil
  show ?case by simp
next
  case (Cons m ms)
  then have "m \<in> set ns" by simp
  then obtain i where i: "i < length ns" "ns ! i = m" by (auto simp: in_set_conv_nth)
  from add_ancestors_from_position[OF pe i(1), of E] i(2)
  obtain E1 where E1: "add_ancestors ns (parentId m) E = Some E1" by auto
  from Cons.prems have "set ms \<subseteq> set ns" by simp
  from Cons.IH[OF this, of E1] E1 show ?case by simp
qed

lemma keyword_search_result:
  assumes "parents_earlier (data st)"
  shows "\<exists>st'. keyword_search st t = Some st' \<and>
     highlightedIds st' = node_id ` {m \<in> set (data st). keyword_matches (toLowerCase t) m}"
proof -
  have "set (filter (keyword_matches (toLowerCase t)) (data st)) \<subseteq> set (data st)" by simp
  from expand_matches_terminates[OF assms this, of "expandedIds st"]
  obtain E' where "expand_matches (data st) (filter (keyword_matches (toLowerCase t)) (data st))
      (expandedIds st) = Some E'" by blast
  then show ?thesis by (simp add: keyword_search_def Let_def)
qed

lemma keyword_search_ids:
  assumes "parents_earlier (data st)"
  shows "\<exists>st'. keyword_search st t = Some st' \<and>
     (\<forall>i. i \<in> highlightedIds st' \<longleftrightarrow>
        (\<exists>m\<in>set (data st). node_id m = i \<and> keyword_matches (toLowerCase t) m))"
proof -
  from keyword_search_result[OF assms, of t] obtain st' where
    st': "keyword_search st t = Some st'"
    "highlightedIds st' = node_id ` {m \<in> set (data st). keyword_matches (toLowerCase t) m}"
    by blast
  have "i \<in> highlightedIds st' \<longleftrightarrow>
        (\<exists>m\<in>set (data st). node_id m = i \<and> keyword_matches (toLowerCase t) m)" for i
    unfolding st'(2) by blast
  with st'(1) show ?thesis by blast
qed

text \<open>
  Claim C9, as amended. In keyword mode, on a tree produced by a parse, the search
  returns, and for every query the resulting highlighted set is exactly the set of the
  ids of the matching nodes: an id is in the set if and only if it is the id of a node
  whose name contains the trimmed query without regard to case, or whose field-number
  token contains the \<^emph>\<open>lower-cased\<close> trimmed query as written.
\<close>

theorem keyword_highlight_ids:
  assumes "parseRosettaNetHtml doc = Inr (data st)" and "data st \<noteq> []"
    and "trim q \<noteq> []" and "\<not> is_path_query (trim q)"
  shows "\<exists>st'. search_effect st q = Some st' \<and>
     (\<forall>i. i \<in> highlightedIds st' \<longleftrightarrow>
        (\<exists>m\<in>set (data st). node_id m = i \<and>
           (includes_str (toLowerCase (name m)) (toLowerCase (trim q)) \<or>
            includes_str (fieldNo m) (toLowerCase (trim q)))))"
proof -
  from assms(1) have pe: "parents_earlier (data st)" by (rule parse_parents_earlier)
  from assms(2-4) have "search_effect st q = keyword_search st (trim q)"
    by (simp add: search_effect_def)
  with keyword_search_ids[OF pe, of "trim q"] show ?thesis
    by (simp only: keyword_matches_def)
qed

theorem keyword_highlight_ids_witness:
  "parseRosettaNetHtml round_trip_doc =
     Inr (data (handleDataLoaded initial_state round_trip_nodes)) \<and>
   data (handleDataLoaded initial_state round_trip_nodes) \<noteq> [] \<and>
   trim '' 2 '' \<noteq> [] \<and> \<not> is_path_query (trim '' 2 '') \<and>
   (\<exists>st'. search_effect (handleDataLoaded initial_state round_trip_nodes) '' 2 '' = Some st' \<and>
      2 \<in> highlightedIds st' \<and> 1 \<notin> highlightedIds st')"
proof -
  let ?st = "handleDataLoaded initial_state round_trip_nodes"
  have dt: "data ?st = round_trip_nodes" by (simp add: handleDataLoaded_def)
  have p: "parseRosettaNetHtml round_trip_doc = Inr (data ?st)"
    unfolding dt by (rule parse_round_trip_doc)
  have ne: "data ?st \<noteq> []" unfolding dt by (simp add: round_trip_nodes_def)
  have t: "trim '' 2 '' \<noteq> []" and k: "\<not> is_path_query (trim '' 2 '')"
    by (simp_all add: search_eval js_eval)
  have two: "\<exists>m\<in>set (data ?st). node_id m = 2 \<and>
           (includes_str (toLowerCase (name m)) (toLowerCase (trim '' 2 '')) \<or>
            includes_str (fieldNo m) (toLowerCase (trim '' 2 '')))"
    unfolding dt by (simp add: round_trip_nodes_def plain_node_def js_eval)
  have one: "\<not> (\<exists>m\<in>set (data ?st). node_id m = 1 \<and>
           (includes_str (toLowerCase (name m)) (toLowerCase (trim '' 2 '')) \<or>
            includes_str (fieldNo m) (toLowerCase (trim '' 2 ''))))"
    unfolding dt by (simp add: round_trip_nodes_def plain_node_def js_eval)
  from keyword_highlight_ids[OF p ne t k] two one
  have "\<exists>st'. search_effect ?st '' 2 '' = Some st' \<and>
      2 \<in> highlightedIds st' \<and> 1 \<notin> highlightedIds st'"
    by blast
  with p ne t k show ?thesis by (intro conjI)
qed

text \<open>
  The claim as stated, with the field number compared with the query as typed, fails for
  a query with a capital letter: the row with the token \<^verbatim>\<open>A1\<close> contains the query \<^verbatim>\<open>A\<close>
  literally, and the search for \<^verbatim>\<open>A\<close> highlights nothing, because the token is compared
  with \<^verbatim>\<open>a\<close>.
\<close>

theorem keyword_fieldNo_counterexample:
  "parseRosettaNetHtml upper_field_doc = Inr upper_field_nodes \<and>
   includes_str (fieldNo (plain_node 1 0 ''A1'' 0 ''x'')) ''A'' \<and>
   plain_node 1 0 ''A1'' 0 ''x'' \<in> set upper_field_nodes \<and>
   search_effect (handleDataLoaded initial_state upper_field_nodes) ''A'' =
     Some \<lparr>data = upper_field_nodes, expandedIds = {}, highlightedIds = {},
           searchMode = Keyword\<rparr>"
proof -
  have "includes_str (fieldNo (plain_node 1 0 ''A1'' 0 ''x'')) ''A''"
    by (simp add: plain_node_def js_eval)
  moreover have "plain_node 1 0 ''A1'' 0 ''x'' \<in> set upper_field_nodes"
    by (simp add: upper_field_nodes_def)
  moreover have "search_effect (handleDataLoaded initial_state upper_field_nodes) ''A'' =
     Some \<lparr>data = upper_field_nodes, expandedIds = {}, highlightedIds = {},
           searchMode = Keyword\<rparr>"
    by (simp add: handleDataLoaded_def initial_state_def upper_field_nodes_def search_eval js_eval)
  ultimately show ?thesis using parse_upper_field_doc by blast
qed

section \<open>Description lookup\<close>

lemma split_on_unfold:
  "split_on c s =
     (if c \<in> set s
      then takeWhile (\<lambda>x. x \<noteq> c) s # split_on c (drop 1 (dropWhile (\<lambda>x. x \<noteq> c) s))
      else [s])"
proof (induction s)
  case Nil
  show ?case by simp
next
  case (Cons x xs)
  show ?case
  proof (cases "x = c")
    case True
    then show ?thesis by simp
  next
    case False
    show ?thesis
    proof (cases "c \<in> set xs")
      case True
      with Cons False show ?thesis by simp
    next
      case nin: False
      with Cons False show ?thesis by simp
    qed
  qed
qed

lemma split_on_hd: "split_on c s ! 0 = takeWhile (\<lambda>x. x \<noteq> c) s"
proof (cases "c \<in> set s")
  case True
  then show ?thesis by (subst split_on_unfold) simp
next
  case False
  then have tw: "takeWhile (\<lambda>x. x \<noteq> c) s = s" by (induction s) auto
  from False have "split_on c s = [s]" by (subst split_on_unfold) simp
  then show ?thesis by (simp only: nth_Cons_0 tw)
qed

lemma split_on_length: "1 < length (split_on c s) \<longleftrightarrow> c \<in> set s"
proof (cases "c \<in> set s")
  case True
  have "split_on c t \<noteq> []" for t by (subst split_on_unfold) simp
  then have "0 < length (split_on c (drop 1 (dropWhile (\<lambda>x. x \<noteq> c) s)))" by simp
  with True show ?thesis by (subst split_on_unfold) simp
next
  case False
  then show ?thesis by (subst split_on_unfold) simp
qed

lemma split_on_second:
  assumes "c \<in> set s"
  shows "split_on c s ! 1 = takeWhile (\<lambda>x. x \<noteq> c) (drop 1 (dropWhile (\<lambda>x. x \<noteq> c) s))"
proof -
  have "split_on c s ! 1 = split_on c (drop 1 (dropWhile (\<lambda>x. x \<noteq> c) s)) ! 0"
    using assms by (subst split_on_unfold) simp
  then show ?thesis by (simp only: split_on_hd)
qed

lemma truthy_the:
  "truthy (def_get defs k) \<Longrightarrow> first_hit defs (k # ks) = the (def_get defs k)"
  "\<not> truthy (def_get defs k) \<Longrightarrow> first_hit defs (k # ks) = first_hit defs ks"
  by (cases "def_get defs k"; simp)+

lemma lookup_description_first_hit:
  "lookup_description defs nm = first_hit defs (lookup_keys nm)"
proof -
  let ?parts = "split_on (CHR ''.'') nm"
  have len0: "0 < length ?parts"
    by (subst split_on_unfold) simp
  have p0: "?parts ! 0 = before_first_dot nm"
    by (simp only: split_on_hd before_first_dot_def)
  have len1: "1 < length ?parts \<longleftrightarrow> CHR ''.'' \<in> set nm"
    by (rule split_on_length)
  have code: "lookup_description defs nm =
      (if truthy (def_get defs nm) then the (def_get defs nm)
       else if truthy (def_get defs (before_first_dot nm))
         then the (def_get defs (before_first_dot nm))
       else if CHR ''.'' \<in> set nm \<and> truthy (def_get defs (?parts ! 1))
         then the (def_get defs (?parts ! 1))
       else Str [])"
    unfolding lookup_description_def Let_def p0 len1 using len0 by simp
  show ?thesis
  proof (cases "CHR ''.'' \<in> set nm")
    case True
    then have p1: "?parts ! 1 = between_first_dots nm"
      by (simp only: split_on_second between_first_dots_def)
    have keys: "lookup_keys nm = [nm, before_first_dot nm, between_first_dots nm]"
      using True by (simp add: lookup_keys_def)
    show ?thesis
      unfolding code keys p1 using True
      by (cases "truthy (def_get defs nm)";
          cases "truthy (def_get defs (before_first_dot nm))";
          cases "truthy (def_get defs (between_first_dots nm))")
         (simp_all add: truthy_the del: first_hit.simps(2))
  next
    case False
    have keys: "lookup_keys nm = [nm, before_first_dot nm]"
      using False by (simp add: lookup_keys_def)
    show ?thesis
      unfolding code keys using False
      by (cases "truthy (def_get defs nm)";
          cases "truthy (def_get defs (before_first_dot nm))")
         (simp_all add: truthy_the del: first_hit.simps(2))
  qed
qed

lemma process_row_descriptions:
  assumes "\<forall>n\<in>set rawData. description n = lookup_description defs (name n)"
  shows "\<forall>n\<in>set (snd (process_row defs (parentIds, rawData) r)).
           description n = lookup_description defs (name n)"
  using assms by (simp add: process_row_def Let_def split: option.splits)

lemma foldl_process_row_descriptions:
  assumes "\<forall>n\<in>set (snd st). description n = lookup_description defs (name n)"
  shows "\<forall>n\<in>set (snd (foldl (process_row defs) st rows)).
           description n = lookup_description defs (name n)"
  using assms
proof (induction rows arbitrary: st)
  case Nil
  then show ?case by simp
next
  case (Cons r rows)
  obtain parentIds rawData where st: "st = (parentIds, rawData)" by (cases st)
  from Cons.prems have "\<forall>n\<in>set rawData. description n = lookup_description defs (name n)"
    unfolding st by simp
  then have "\<forall>n\<in>set (snd (process_row defs st r)).
      description n = lookup_description defs (name n)"
    unfolding st by (rule process_row_descriptions)
  from Cons.IH[OF this] show ?case by simp
qed

lemma build_rows_descriptions:
  assumes "n \<in> set (build_rows defs rows)"
  shows "description n = lookup_description defs (name n)"
proof -
  have "\<forall>n\<in>set (snd (foldl (process_row defs) ([-1 \<mapsto> 0], []) rows)).
      description n = lookup_description defs (name n)"
    by (rule foldl_process_row_descriptions) simp
  with assms show ?thesis by (simp add: build_rows_def)
qed

text \<open>
  Claim C6, as amended. For every node that a parse emits, the description is resolved
  from the dictionary of the document by trying, in this order, (a) the full name, (b)
  the part of the name before its first dot (the whole name when it has no dot), and
  (c), when the name has a dot, the part between its first and its second dot (for
  \<^verbatim>\<open>a.b.c\<close> the key tried in step (c) is \<^verbatim>\<open>b\<close>). A key hits when its entry is true in a
  condition, so an entry with an empty description counts as a miss; the first hit wins,
  and no hit yields the empty string.
\<close>

theorem description_lookup_order:
  assumes "parseRosettaNetHtml doc = Inr ns" and "n \<in> set ns"
  shows "description n = first_hit (extract_definitions doc) (lookup_keys (name n))"
proof -
  from assms(1) obtain mainTable where "ns = build_rows (extract_definitions doc) mainTable"
    by (auto simp: parseRosettaNetHtml_def split: option.splits)
  with assms(2) have "description n = lookup_description (extract_definitions doc) (name n)"
    by (simp add: build_rows_descriptions)
  then show ?thesis by (simp only: lookup_description_first_hit)
qed

theorem description_lookup_order_witness:
  "parseRosettaNetHtml described_doc = Inr described_nodes \<and>
   described_nodes ! 0 \<in> set described_nodes \<and>
   name (described_nodes ! 0) = ''a.b.c'' \<and>
   lookup_keys (name (described_nodes ! 0)) = [''a.b.c'', ''a'', ''b''] \<and>
   extract_definitions described_doc = [''b'' \<mapsto> ''Y''] \<and>
   description (described_nodes ! 0) =
     first_hit (extract_definitions described_doc) (lookup_keys (name (described_nodes ! 0))) \<and>
   first_hit (extract_definitions described_doc) (lookup_keys (name (described_nodes ! 0))) =
     Str ''Y''"
proof -
  have m: "described_nodes ! 0 \<in> set described_nodes"
    by (simp add: described_nodes_def)
  have nm: "name (described_nodes ! 0) = ''a.b.c''"
    by (simp add: described_nodes_def)
  have k: "lookup_keys (name (described_nodes ! 0)) = [''a.b.c'', ''a'', ''b'']"
    unfolding nm by (simp add: lookup_keys_def before_first_dot_def between_first_dots_def)
  have h: "first_hit (extract_definitions described_doc)
      (lookup_keys (name (described_nodes ! 0))) = Str ''Y''"
    unfolding k extract_described_doc by (simp add: def_get_def object_prototype_keys_def)
  from description_lookup_order[OF parse_described_doc m]
    parse_described_doc m nm k extract_described_doc h
  show ?thesis by (intro conjI)
qed

text \<open>
  The claim as stated, with the whole remainder after the first dot as the key of step
  (c), fails: the dictionary of the document has the only entry \<^verbatim>\<open>b.c\<close>, and the node
  named \<^verbatim>\<open>a.b.c\<close> is emitted with the empty description.
\<close>

theorem description_lookup_counterexample:
  "parseRosettaNetHtml remainder_key_doc =
     Inr [plain_node 1 0 ''1'' 0 ''a.b.c'', plain_node 2 1 ''2'' 1 ''x'',
          plain_node 3 2 ''3'' 2 ''y''] \<and>
   extract_definitions remainder_key_doc ''b.c'' = Some ''X'' \<and>
   name (plain_node 1 0 ''1'' 0 ''a.b.c'') = ''a.b.c'' \<and>
   description (plain_node 1 0 ''1'' 0 ''a.b.c'') = Str []"
  using parse_remainder_key_doc
  by (simp add: extract_remainder_key_doc plain_node_def)

section \<open>The retry with the next cell\<close>

lemma pipe_count_nbsp: "pipe_count (nbsp_to_space s) = pipe_count s"
  by (induction s) (simp_all add: pipe_count_def nbsp_to_space_def)

lemma parse_shifted_name_doc:
  "parseRosettaNetHtml shifted_name_doc = Inr [plain_node 1 0 ''1'' 1 ''Foo'']"
  by (simp add: shifted_name_doc_def parse_eval js_eval)

text \<open>
  Claim C5, as amended. For every catalog row that is emitted, whose label in cell 2
  cleans to an empty name and which has a fourth cell, the builder retries with cell 3
  for the name only: the name of the emitted node is the text of cell 3 without pipes and
  hyphens, trimmed (and without the replacement of no-break spaces), and its description
  is looked up under that name, while its level remains the number of pipes in cell 2
  and is what the parent tracking records.
\<close>

theorem retry_recomputes_name_only:
  assumes "\<not> length (tds r) < 3"
    and "parseInt (filter is_digit (trim (tds r ! 0))) = Some i"
    and "clean_name (nbsp_to_space (tds r ! 2)) = []"
    and "3 < length (tds r)"
  shows "\<exists>n. process_row defs (parentIds, rawData) r =
           (parentIds(int (pipe_count (tds r ! 2)) \<mapsto> i), rawData @ [n]) \<and>
         node_id n = i \<and>
         name n = clean_name (tds r ! 3) \<and>
         level n = pipe_count (tds r ! 2) \<and>
         description n = lookup_description defs (clean_name (tds r ! 3))"
  using assms by (simp add: process_row_def Let_def pipe_count_nbsp)

theorem retry_recomputes_name_only_witness:
  "\<not> length (tds (row_of_cells [''1'', ''1'', ''|--'', ''|--|--Foo''])) < 3 \<and>
   parseInt (filter is_digit (trim (tds (row_of_cells [''1'', ''1'', ''|--'', ''|--|--Foo'']) ! 0)))
     = Some 1 \<and>
   clean_name (nbsp_to_space (tds (row_of_cells [''1'', ''1'', ''|--'', ''|--|--Foo'']) ! 2)) = [] \<and>
   3 < length (tds (row_of_cells [''1'', ''1'', ''|--'', ''|--|--Foo''])) \<and>
   (\<exists>n. process_row Map.empty ([-1 \<mapsto> 0], []) (row_of_cells [''1'', ''1'', ''|--'', ''|--|--Foo'']) =
          ([-1 \<mapsto> 0, 1 \<mapsto> 1], [n]) \<and>
        name n = ''Foo'' \<and> level n = 1)"
proof -
  let ?r = "row_of_cells [''1'', ''1'', ''|--'', ''|--|--Foo'']"
  have a: "\<not> length (tds ?r) < 3" by (simp add: row_of_cells_def)
  have b: "parseInt (filter is_digit (trim (tds ?r ! 0))) = Some 1"
    by (simp add: row_of_cells_def js_eval)
  have c: "clean_name (nbsp_to_space (tds ?r ! 2)) = []"
    by (simp add: row_of_cells_def clean_name_def nbsp_to_space_def js_eval)
  have d: "3 < length (tds ?r)" by (simp add: row_of_cells_def)
  have e: "clean_name (tds ?r ! 3) = ''Foo''" "pipe_count (tds ?r ! 2) = 1"
    by (simp_all add: row_of_cells_def clean_name_def pipe_count_def js_eval)
  from retry_recomputes_name_only[OF a b c d, of Map.empty "[-1 \<mapsto> 0]" "[]"]
  have "\<exists>n. process_row Map.empty ([-1 \<mapsto> 0], []) ?r = ([-1 \<mapsto> 0, 1 \<mapsto> 1], [n]) \<and>
        name n = ''Foo'' \<and> level n = 1"
    unfolding e by auto
  with a b c d show ?thesis by (intro conjI)
qed

text \<open>
  The claim as stated, with the level recomputed from cell 3, fails: for the cells
  \<^verbatim>\<open>1\<close>, \<^verbatim>\<open>1\<close>, \<^verbatim>\<open>|--\<close>, \<^verbatim>\<open>|--|--Foo\<close> the label cleans to the empty name, cell 3 has
  two pipes, and the emitted node \<^verbatim>\<open>Foo\<close> has level 1.
\<close>

theorem retry_level_counterexample:
  "clean_name (nbsp_to_space ''|--'') = [] \<and>
   pipe_count ''|--|--Foo'' = 2 \<and>
   parseRosettaNetHtml shifted_name_doc = Inr [plain_node 1 0 ''1'' 1 ''Foo''] \<and>
   level (plain_node 1 0 ''1'' 1 ''Foo'') = 1"
  using parse_shifted_name_doc
  by (simp add: clean_name_def nbsp_to_space_def pipe_count_def plain_node_def js_eval)

end
